theory Spec2Isabelle
  imports Main "HOL-Library.Multiset" "HOL-Library.AList" "HOL-Library.Char_ord"
    "HOL-Library.List_Lexorder"
begin

section \<open>Data model of \<^verbatim>\<open>algorithms.py\<close>\<close>

text \<open>
  The scheduling functions receive Python dictionaries. A task carries the keys
  \<^verbatim>\<open>id\<close>, \<^verbatim>\<open>wcet\<close>, \<^verbatim>\<open>deadline\<close> and, optionally, \<^verbatim>\<open>node_id\<close> (read with
  \<^verbatim>\<open>.get\<close> in \<^verbatim>\<open>edf_multinode\<close>); a message carries \<^verbatim>\<open>sender\<close> and \<^verbatim>\<open>receiver\<close>; a node
  carries \<^verbatim>\<open>id\<close>; a link carries \<^verbatim>\<open>start_node\<close>, \<^verbatim>\<open>end_node\<close>, \<^verbatim>\<open>link_delay\<close>.
  Task ids are strings and node ids are integers, as in the module's own
  \<^verbatim>\<open>example_schedule\<close> (\<^verbatim>\<open>"task_id": "3", "node_id": 0\<close>) and in the single-node
  entries (\<^verbatim>\<open>'node_id': 1\<close>). Times, execution times, deadlines and delays are Python
  integers. Field names that several dictionaries share, or that clash with a HOL
  constant, carry a suffix.
\<close>

record task =
  id_task :: string
  wcet :: int
  deadline_task :: int
  node_id_task :: "int option"

record message =
  sender :: string
  receiver :: string

record node =
  id_node :: int

record link =
  start_node :: int
  end_node :: int
  link_delay :: int

record application_data =
  tasks :: "task list"
  messages :: "message list"

record platform_data =
  nodes :: "node list"
  links :: "link list"

record entry =
  task_id :: string
  node_id :: int
  start_time :: int
  end_time :: int
  deadline :: int

record schedule_result =
  schedule :: "entry list"
  name :: string

text \<open>The exceptions the module can raise: a failed dictionary lookup, \<^verbatim>\<open>min\<close> of an
  empty dictionary, and \<^verbatim>\<open>next\<close> on an exhausted generator.\<close>

datatype error = KeyError | ValueError | StopIteration

section \<open>The hard-coded example\<close>

definition example_schedule :: "entry list" where
  "example_schedule =
     [\<lparr>task_id = ''3'', node_id = 0, start_time = 0, end_time = 20, deadline = 256\<rparr>,
      \<lparr>task_id = ''2'', node_id = 0, start_time = 20, end_time = 40, deadline = 300\<rparr>,
      \<lparr>task_id = ''1'', node_id = 0, start_time = 40, end_time = 60, deadline = 250\<rparr>,
      \<lparr>task_id = ''0'', node_id = 0, start_time = 60, end_time = 80, deadline = 250\<rparr>]"

definition ll_multinode :: "application_data \<Rightarrow> platform_data \<Rightarrow> schedule_result" where
  "ll_multinode application_data platform_data =
     \<lparr>schedule = example_schedule, name = ''LL Multi Node''\<rparr>"

definition ldf_multinode :: "application_data \<Rightarrow> platform_data \<Rightarrow> schedule_result" where
  "ldf_multinode application_data platform_data =
     \<lparr>schedule = example_schedule, name = ''LDF Multi Node''\<rparr>"

section \<open>Dependency graph and in-degrees\<close>

text \<open>\<^verbatim>\<open>in_degree = {task['id']: 0 for task in tasks}\<close>.\<close>

definition in_degree_init :: "task list \<Rightarrow> (string \<rightharpoonup> int)" where
  "in_degree_init ts = fold (\<lambda>t m. m(id_task t \<mapsto> 0)) ts Map.empty"

text \<open>
  The loop over the messages. \<^verbatim>\<open>graph\<close> is a \<^verbatim>\<open>defaultdict(list)\<close>, so a missing key
  reads as the empty list and an unknown sender is accepted; \<^verbatim>\<open>in_degree\<close> is a plain
  dictionary, so \<^verbatim>\<open>in_degree[receiver] += 1\<close> raises \<^verbatim>\<open>KeyError\<close> for a receiver that
  is no task id (after the append of that iteration, which is then lost with the call).
\<close>

fun add_messages ::
  "message list \<Rightarrow> (string \<Rightarrow> string list) \<Rightarrow> (string \<rightharpoonup> int) \<Rightarrow>
     error + ((string \<Rightarrow> string list) \<times> (string \<rightharpoonup> int))" where
  "add_messages [] graph in_degree = Inr (graph, in_degree)"
| "add_messages (m # ms) graph in_degree =
     (let graph' = graph(sender m := graph (sender m) @ [receiver m]) in
      case in_degree (receiver m) of
        None \<Rightarrow> Inl KeyError
      | Some v \<Rightarrow> add_messages ms graph' (in_degree(receiver m \<mapsto> v + 1)))"

section \<open>Priority orderings\<close>

text \<open>
  \<^verbatim>\<open>sorted(..., key=lambda task: task['deadline'])\<close> is a stable sort by deadline;
  with \<^verbatim>\<open>reverse=True\<close> Python sorts by descending deadline and still keeps equal
  elements in their original order, which on integers is the stable sort by the
  negated deadline. \<^const>\<open>sort_key\<close> is a stable insertion sort.
\<close>

definition edf_key :: "task \<Rightarrow> int" where
  "edf_key t = deadline_task t"

definition ldf_key :: "task \<Rightarrow> int" where
  "ldf_key t = - deadline_task t"

section \<open>Single-node scheduling\<close>

text \<open>
  The inner loop \<^verbatim>\<open>for dependent in graph[task_id]\<close>: decrement the in-degree
  (\<^verbatim>\<open>KeyError\<close> for a missing key), and when it has become exactly 0 append the first
  task of the (sorted) task list with that id (\<^verbatim>\<open>next\<close> raises \<^verbatim>\<open>StopIteration\<close>
  when there is none).
\<close>

fun release_dependents ::
  "task list \<Rightarrow> string list \<Rightarrow> (string \<rightharpoonup> int) \<Rightarrow> task list \<Rightarrow>
     error + ((string \<rightharpoonup> int) \<times> task list)" where
  "release_dependents ts [] in_degree ready_queue = Inr (in_degree, ready_queue)"
| "release_dependents ts (dependent # deps) in_degree ready_queue =
     (case in_degree dependent of
        None \<Rightarrow> Inl KeyError
      | Some v \<Rightarrow>
          (let in_degree' = in_degree(dependent \<mapsto> v - 1) in
           if v - 1 = 0 then
             (case find (\<lambda>t. id_task t = dependent) ts of
                None \<Rightarrow> Inl StopIteration
              | Some dependent_task \<Rightarrow>
                  release_dependents ts deps in_degree' (ready_queue @ [dependent_task]))
           else release_dependents ts deps in_degree' ready_queue))"

lemma find_Some_id:
  "find (\<lambda>t. id_task t = x) ts = Some t \<Longrightarrow> id_task t = x \<and> t \<in> set ts"
  by (induction ts) (auto split: if_splits)

lemma release_dependents_hit:
  assumes "in_degree dep = Some 1" and "find (\<lambda>t. id_task t = dep) ts = Some t"
  shows "release_dependents ts (dep # deps) in_degree q
           = release_dependents ts deps (in_degree(dep \<mapsto> 0)) (q @ [t])"
  using assms by simp

lemma release_dependents_miss:
  assumes "in_degree dep = Some v" and "v \<noteq> 1"
  shows "release_dependents ts (dep # deps) in_degree q
           = release_dependents ts deps (in_degree(dep \<mapsto> v - 1)) q"
  using assms by simp

lemma release_dependents_Cons_cases:
  assumes "release_dependents ts (dep # deps) in_degree q = Inr r"
  obtains (miss) v where "in_degree dep = Some v" and "v \<noteq> 1"
      and "release_dependents ts deps (in_degree(dep \<mapsto> v - 1)) q = Inr r"
    | (hit) t where "in_degree dep = Some 1" and "find (\<lambda>t. id_task t = dep) ts = Some t"
      and "release_dependents ts deps (in_degree(dep \<mapsto> 0)) (q @ [t]) = Inr r"
proof -
  from assms obtain v where v: "in_degree dep = Some v"
    by (auto split: option.splits)
  show thesis
  proof (cases "v = 1")
    case False
    with assms v release_dependents_miss[of in_degree dep v ts deps q] show thesis
      by (intro miss[of v]) simp_all
  next
    case True
    with assms v obtain t where t: "find (\<lambda>t. id_task t = dep) ts = Some t"
      by (auto split: option.splits)
    with assms v True release_dependents_hit[of in_degree dep ts t deps q] show thesis
      by (intro hit[of t]) simp_all
  qed
qed

text \<open>The number of task ids whose in-degree is still positive; it bounds the appends
  that remain.\<close>

definition pending :: "task list \<Rightarrow> (string \<rightharpoonup> int) \<Rightarrow> nat" where
  "pending ts in_degree =
     card {x \<in> set (map id_task ts). \<exists>v. in_degree x = Some v \<and> 0 < v}"

lemma pending_decrement:
  assumes "in_degree x = Some v"
  shows "pending ts (in_degree(x \<mapsto> v - 1)) \<le> pending ts in_degree"
proof -
  have "{y \<in> set (map id_task ts). \<exists>w. (in_degree(x \<mapsto> v - 1)) y = Some w \<and> 0 < w}
        \<subseteq> {y \<in> set (map id_task ts). \<exists>w. in_degree y = Some w \<and> 0 < w}"
    using assms by auto
  then show ?thesis
    unfolding pending_def by (intro card_mono) auto
qed

lemma pending_release:
  assumes "in_degree x = Some 1" and "x \<in> set (map id_task ts)"
  shows "Suc (pending ts (in_degree(x \<mapsto> 0))) \<le> pending ts in_degree"
proof -
  let ?A = "{y \<in> set (map id_task ts). \<exists>w. in_degree y = Some w \<and> 0 < w}"
  let ?B = "{y \<in> set (map id_task ts). \<exists>w. (in_degree(x \<mapsto> 0)) y = Some w \<and> 0 < w}"
  have fin: "finite ?A" by auto
  have "x \<in> ?A" using assms by auto
  moreover have "?B \<subseteq> ?A - {x}" by auto
  ultimately have "card ?B < card ?A"
    by (metis (no_types, lifting) fin card_Diff1_less card_mono finite_Diff
        le_less_trans not_less)
  then show ?thesis unfolding pending_def by simp
qed

lemma release_dependents_measure:
  "release_dependents ts deps in_degree q = Inr (in_degree', q') \<Longrightarrow>
     length q' + pending ts in_degree' \<le> length q + pending ts in_degree"
proof (induction deps arbitrary: in_degree q)
  case Nil
  then show ?case by simp
next
  case (Cons dep deps)
  from Cons.prems show ?case
  proof (cases rule: release_dependents_Cons_cases)
    case (miss v)
    from Cons.IH[of "in_degree(dep \<mapsto> v - 1)" q, OF miss(3)]
      pending_decrement[of in_degree dep v ts, OF miss(1)]
    show ?thesis by linarith
  next
    case (hit t)
    from hit(2) have "dep \<in> set (map id_task ts)"
      using find_Some_id by force
    with hit(1) have "Suc (pending ts (in_degree(dep \<mapsto> 0))) \<le> pending ts in_degree"
      by (rule pending_release)
    moreover have "length (q @ [t]) = Suc (length q)" by simp
    moreover note Cons.IH[of "in_degree(dep \<mapsto> 0)" "q @ [t]", OF hit(3)]
    ultimately show ?thesis by linarith
  qed
qed

text \<open>
  The \<^verbatim>\<open>while ready_queue\<close> loop of \<^verbatim>\<open>ldf_single_node\<close> and \<^verbatim>\<open>edf_single_node\<close>; the
  two functions differ only in the sort key, which is the parameter \<open>key\<close>.
\<close>

function single_node_loop ::
  "(task \<Rightarrow> int) \<Rightarrow> task list \<Rightarrow> (string \<Rightarrow> string list) \<Rightarrow> task list \<Rightarrow>
     (string \<rightharpoonup> int) \<Rightarrow> int \<Rightarrow> entry list \<Rightarrow> error + entry list" where
  "single_node_loop key ts graph [] in_degree current_time sched = Inr sched"
| "single_node_loop key ts graph (t # ready_queue) in_degree current_time sched =
     (let start = current_time;
          end = start + wcet t;
          sched' = sched @ [\<lparr>task_id = id_task t, node_id = 1, start_time = start,
                             end_time = end, deadline = deadline_task t\<rparr>]
      in case release_dependents ts (graph (id_task t)) in_degree ready_queue of
           Inl e \<Rightarrow> Inl e
         | Inr (in_degree', ready_queue') \<Rightarrow>
             single_node_loop key ts graph (sort_key key ready_queue') in_degree' end sched')"
  by pat_completeness auto
termination
proof (relation "measure (\<lambda>(key, ts, graph, q, in_degree, now, sched).
                   length q + pending ts in_degree)", goal_cases)
  case 1
  show ?case by simp
next
  case (2 key ts graph t ready_queue in_degree current_time sched x xa xb y ya yb)
  then show ?case
    using release_dependents_measure[of ts "graph (id_task t)" in_degree ready_queue]
    by auto
qed


text \<open>
  The two single-node functions. Each returns its result together with the caller's
  \<^verbatim>\<open>application_data\<close> as the call leaves it: \<^verbatim>\<open>tasks.sort(...)\<close> sorts the caller's
  list in place, after the message loop (so a \<^verbatim>\<open>KeyError\<close> there leaves the list as it
  was). Every task id is a key of \<^verbatim>\<open>in_degree\<close>, so the test
  \<^verbatim>\<open>in_degree[task['id']] == 0\<close> of the list comprehension cannot raise.
\<close>

definition ldf_single_node ::
  "application_data \<Rightarrow> (error + schedule_result) \<times> application_data" where
  "ldf_single_node application_data =
     (case add_messages (messages application_data) (\<lambda>_. [])
             (in_degree_init (tasks application_data)) of
        Inl e \<Rightarrow> (Inl e, application_data)
      | Inr (graph, in_degree) \<Rightarrow>
          (let tasks' = sort_key ldf_key (tasks application_data);
               ready_queue =
                 sort_key ldf_key (filter (\<lambda>t. in_degree (id_task t) = Some 0) tasks')
           in ((case single_node_loop ldf_key tasks' graph ready_queue in_degree 0 [] of
                  Inl e \<Rightarrow> Inl e
                | Inr ldf_schedule \<Rightarrow>
                    Inr \<lparr>schedule = ldf_schedule, name = ''LDF Single Node''\<rparr>),
               application_data\<lparr>tasks := tasks'\<rparr>)))"

definition edf_single_node ::
  "application_data \<Rightarrow> (error + schedule_result) \<times> application_data" where
  "edf_single_node application_data =
     (case add_messages (messages application_data) (\<lambda>_. [])
             (in_degree_init (tasks application_data)) of
        Inl e \<Rightarrow> (Inl e, application_data)
      | Inr (graph, in_degree) \<Rightarrow>
          (let tasks' = sort_key edf_key (tasks application_data);
               ready_queue =
                 sort_key edf_key (filter (\<lambda>t. in_degree (id_task t) = Some 0) tasks')
           in ((case single_node_loop edf_key tasks' graph ready_queue in_degree 0 [] of
                  Inl e \<Rightarrow> Inl e
                | Inr edf_schedule \<Rightarrow>
                    Inr \<lparr>schedule = edf_schedule, name = ''EDF Single Node''\<rparr>),
               application_data\<lparr>tasks := tasks'\<rparr>)))"

section \<open>Multi-node EDF scheduling\<close>

fun find_link_delay :: "link list \<Rightarrow> int \<Rightarrow> int \<Rightarrow> int" where
  "find_link_delay [] s e = 0"
| "find_link_delay (l # ls) s e =
     (if start_node l = s \<and> end_node l = e then link_delay l else find_link_delay ls s e)"

text \<open>
  \<^verbatim>\<open>node_time = {node['id']: 0 for node in nodes}\<close>. The order of the keys matters to
  \<^verbatim>\<open>min\<close>, so the dictionary is an association list in insertion order:
  \<^const>\<open>AList.update\<close> overwrites the value of a key that is present, in place, and
  appends a new key at the end, as assignment to a Python dictionary does.
\<close>

definition node_time_init :: "node list \<Rightarrow> (int \<times> int) list" where
  "node_time_init ns = fold (\<lambda>n nt. AList.update (id_node n) 0 nt) ns []"

text \<open>
  \<^verbatim>\<open>min(node_time, key=node_time.get)\<close>: iterate over the keys in insertion order and
  keep the first one whose value is minimal (a later key replaces the best one only
  when its value is strictly smaller); \<^verbatim>\<open>ValueError\<close> on an empty dictionary.
\<close>

fun min_node :: "(int \<times> int) list \<Rightarrow> error + int" where
  "min_node [] = Inl ValueError"
| "min_node (p # ps) =
     Inr (fst (fold (\<lambda>c best. if snd c < snd best then c else best) ps p))"

text \<open>
  Lines 346 to 348: when the released task carries a truthy \<^verbatim>\<open>node_id\<close> (present, not
  \<^verbatim>\<open>None\<close>, not 0) that differs from the node just used, the clock of that node is
  raised. Both reads of \<^verbatim>\<open>node_time\<close> raise \<^verbatim>\<open>KeyError\<close> on a missing key.
\<close>

definition apply_link_delay ::
  "link list \<Rightarrow> int \<Rightarrow> task \<Rightarrow> (int \<times> int) list \<Rightarrow> error + (int \<times> int) list" where
  "apply_link_delay ls nid dependent_task node_time =
     (case node_id_task dependent_task of
        None \<Rightarrow> Inr node_time
      | Some h \<Rightarrow>
          if h \<noteq> 0 \<and> h \<noteq> nid then
            (let delay = find_link_delay ls nid h in
             case map_of node_time h of
               None \<Rightarrow> Inl KeyError
             | Some c \<Rightarrow>
                 (case map_of node_time nid of
                    None \<Rightarrow> Inl KeyError
                  | Some c0 \<Rightarrow> Inr (AList.update h (max c (c0 + delay)) node_time)))
          else Inr node_time)"

fun release_dependents_multi ::
  "task list \<Rightarrow> link list \<Rightarrow> int \<Rightarrow> string list \<Rightarrow> (string \<rightharpoonup> int) \<Rightarrow> task list \<Rightarrow>
     (int \<times> int) list \<Rightarrow> error + ((string \<rightharpoonup> int) \<times> task list \<times> (int \<times> int) list)" where
  "release_dependents_multi ts ls nid [] in_degree ready_queue node_time =
     Inr (in_degree, ready_queue, node_time)"
| "release_dependents_multi ts ls nid (dependent # deps) in_degree ready_queue node_time =
     (case in_degree dependent of
        None \<Rightarrow> Inl KeyError
      | Some v \<Rightarrow>
          (let in_degree' = in_degree(dependent \<mapsto> v - 1) in
           if v - 1 = 0 then
             (case find (\<lambda>t. id_task t = dependent) ts of
                None \<Rightarrow> Inl StopIteration
              | Some dependent_task \<Rightarrow>
                  (case apply_link_delay ls nid dependent_task node_time of
                     Inl e \<Rightarrow> Inl e
                   | Inr node_time' \<Rightarrow>
                       release_dependents_multi ts ls nid deps in_degree'
                         (ready_queue @ [dependent_task]) node_time'))
           else release_dependents_multi ts ls nid deps in_degree' ready_queue node_time))"

lemma release_dependents_multi_hit:
  assumes "in_degree dep = Some 1" and "find (\<lambda>t. id_task t = dep) ts = Some t"
  shows "release_dependents_multi ts ls nid (dep # deps) in_degree q nt
           = (case apply_link_delay ls nid t nt of
                Inl e \<Rightarrow> Inl e
              | Inr nt' \<Rightarrow>
                  release_dependents_multi ts ls nid deps (in_degree(dep \<mapsto> 0)) (q @ [t]) nt')"
  using assms by simp

lemma release_dependents_multi_miss:
  assumes "in_degree dep = Some v" and "v \<noteq> 1"
  shows "release_dependents_multi ts ls nid (dep # deps) in_degree q nt
           = release_dependents_multi ts ls nid deps (in_degree(dep \<mapsto> v - 1)) q nt"
  using assms by simp

lemma release_dependents_multi_Cons_cases:
  assumes "release_dependents_multi ts ls nid (dep # deps) in_degree q nt = Inr r"
  obtains (miss) v where "in_degree dep = Some v" and "v \<noteq> 1"
      and "release_dependents_multi ts ls nid deps (in_degree(dep \<mapsto> v - 1)) q nt = Inr r"
    | (hit) t nt' where "in_degree dep = Some 1"
      and "find (\<lambda>t. id_task t = dep) ts = Some t"
      and "apply_link_delay ls nid t nt = Inr nt'"
      and "release_dependents_multi ts ls nid deps (in_degree(dep \<mapsto> 0)) (q @ [t]) nt'
             = Inr r"
proof -
  from assms obtain v where v: "in_degree dep = Some v"
    by (auto split: option.splits)
  show thesis
  proof (cases "v = 1")
    case False
    with assms v release_dependents_multi_miss[of in_degree dep v ts ls nid deps q nt]
    show thesis
      by (intro miss[of v]) simp_all
  next
    case True
    with assms v obtain t where t: "find (\<lambda>t. id_task t = dep) ts = Some t"
      by (auto split: option.splits)
    from assms v True t release_dependents_multi_hit[of in_degree dep ts t ls nid deps q nt]
    obtain nt' where "apply_link_delay ls nid t nt = Inr nt'"
      and "release_dependents_multi ts ls nid deps (in_degree(dep \<mapsto> 0)) (q @ [t]) nt'
             = Inr r"
      by (cases "apply_link_delay ls nid t nt") simp_all
    with v True t show thesis
      by (intro hit[of t nt']) simp_all
  qed
qed

lemma release_dependents_multi_single:
  "release_dependents_multi ts ls nid deps in_degree q nt = Inr (in_degree', q', nt') \<Longrightarrow>
     release_dependents ts deps in_degree q = Inr (in_degree', q')"
proof (induction deps arbitrary: in_degree q nt)
  case Nil
  then show ?case by simp
next
  case (Cons dep deps)
  from Cons.prems show ?case
  proof (cases rule: release_dependents_multi_Cons_cases)
    case (miss v)
    from Cons.IH[of "in_degree(dep \<mapsto> v - 1)" q nt, OF miss(3)]
    show ?thesis
      by (simp only: release_dependents_miss[of in_degree dep v ts deps q, OF miss(1,2)])
  next
    case (hit t nt1)
    from Cons.IH[of "in_degree(dep \<mapsto> 0)" "q @ [t]" nt1, OF hit(4)]
    show ?thesis
      by (simp only: release_dependents_hit[of in_degree dep ts t deps q, OF hit(1,2)])
  qed
qed

text \<open>The \<^verbatim>\<open>while ready_queue\<close> loop of \<^verbatim>\<open>edf_multinode\<close>.\<close>

function multi_node_loop ::
  "task list \<Rightarrow> link list \<Rightarrow> (string \<Rightarrow> string list) \<Rightarrow> task list \<Rightarrow>
     (string \<rightharpoonup> int) \<Rightarrow> (int \<times> int) list \<Rightarrow> entry list \<Rightarrow> error + entry list" where
  "multi_node_loop ts ls graph [] in_degree node_time sched = Inr sched"
| "multi_node_loop ts ls graph (t # ready_queue) in_degree node_time sched =
     (case min_node node_time of
        Inl e \<Rightarrow> Inl e
      | Inr nid \<Rightarrow>
          (case map_of node_time nid of
             None \<Rightarrow> Inl KeyError
           | Some start \<Rightarrow>
               (let end = start + wcet t;
                    sched' = sched @ [\<lparr>task_id = id_task t, node_id = nid,
                                       start_time = start, end_time = end,
                                       deadline = deadline_task t\<rparr>];
                    node_time' = AList.update nid end node_time
                in case release_dependents_multi ts ls nid (graph (id_task t)) in_degree
                          ready_queue node_time' of
                     Inl e \<Rightarrow> Inl e
                   | Inr (in_degree', ready_queue', node_time'') \<Rightarrow>
                       multi_node_loop ts ls graph (sort_key edf_key ready_queue')
                         in_degree' node_time'' sched')))"
  by pat_completeness auto
termination
proof (relation "measure (\<lambda>(ts, ls, graph, q, in_degree, nt, sched).
                   length q + pending ts in_degree)", goal_cases)
  case 1
  show ?case by simp
next
  case (2 ts ls graph t ready_queue in_degree node_time sched nid start e s nt' r d' r' q' nt'')
  then show ?case
    using release_dependents_measure[of ts "graph (id_task t)" in_degree ready_queue d' q']
      release_dependents_multi_single[of ts ls nid "graph (id_task t)" in_degree ready_queue
        nt' d' q' nt'']
    by auto
qed

text \<open>
  \<^verbatim>\<open>edf_multinode\<close> returns its result with both caller-owned arguments as the call
  leaves them. The task list is sorted in place after the message loop; nothing else
  the caller owns is assigned to.
\<close>

definition edf_multinode ::
  "application_data \<Rightarrow> platform_data \<Rightarrow>
     (error + schedule_result) \<times> application_data \<times> platform_data" where
  "edf_multinode application_data platform_data =
     (case add_messages (messages application_data) (\<lambda>_. [])
             (in_degree_init (tasks application_data)) of
        Inl e \<Rightarrow> (Inl e, application_data, platform_data)
      | Inr (graph, in_degree) \<Rightarrow>
          (let tasks' = sort_key edf_key (tasks application_data);
               node_time = node_time_init (nodes platform_data);
               ready_queue =
                 sort_key edf_key (filter (\<lambda>t. in_degree (id_task t) = Some 0) tasks')
           in ((case multi_node_loop tasks' (links platform_data) graph ready_queue in_degree
                       node_time [] of
                  Inl e \<Rightarrow> Inl e
                | Inr sched \<Rightarrow> Inr \<lparr>schedule = sched, name = ''EDF Multi Node''\<rparr>),
               application_data\<lparr>tasks := tasks'\<rparr>, platform_data)))"


section \<open>The graph and the in-degrees in closed form\<close>

lemma fold_in_degree_apply:
  "fold (\<lambda>t m. m(id_task t \<mapsto> (0::int))) ts m x
     = (if x \<in> id_task ` set ts then Some 0 else m x)"
  by (induction ts arbitrary: m) auto

lemma in_degree_init_apply:
  "in_degree_init ts x = (if x \<in> id_task ` set ts then Some 0 else None)"
  by (simp add: in_degree_init_def fold_in_degree_apply)

lemma dom_in_degree_init: "dom (in_degree_init ts) = id_task ` set ts"
  by (auto simp: in_degree_init_apply dom_def)

definition graph_of :: "message list \<Rightarrow> string \<Rightarrow> string list" where
  "graph_of ms x = map receiver (filter (\<lambda>m. sender m = x) ms)"

definition in_degree_of :: "message list \<Rightarrow> (string \<rightharpoonup> int) \<Rightarrow> (string \<rightharpoonup> int)" where
  "in_degree_of ms d x =
     map_option (\<lambda>v. v + int (length (filter (\<lambda>m. receiver m = x) ms))) (d x)"

lemma add_messages_result:
  "add_messages ms g d =
     (if receiver ` set ms \<subseteq> dom d
      then Inr (\<lambda>x. g x @ graph_of ms x, in_degree_of ms d)
      else Inl KeyError)"
proof (induction ms arbitrary: g d)
  case Nil
  have "in_degree_of [] d = d"
    by (rule ext) (simp add: in_degree_of_def option.map_ident)
  then show ?case by (simp add: graph_of_def)
next
  case (Cons m ms)
  show ?case
  proof (cases "d (receiver m)")
    case None
    then show ?thesis by (auto simp: dom_def)
  next
    case (Some v)
    let ?g = "g(sender m := g (sender m) @ [receiver m])"
    let ?d = "d(receiver m \<mapsto> v + 1)"
    have dom: "dom ?d = dom d" using Some by auto
    have g: "(\<lambda>x. ?g x @ graph_of ms x) = (\<lambda>x. g x @ graph_of (m # ms) x)"
      by (rule ext) (simp add: graph_of_def)
    have d: "in_degree_of ms ?d = in_degree_of (m # ms) d"
      by (rule ext) (simp add: in_degree_of_def Some)
    have "add_messages (m # ms) g d = add_messages ms ?g ?d"
      using Some by simp
    also have "\<dots> = (if receiver ` set ms \<subseteq> dom ?d
      then Inr (\<lambda>x. ?g x @ graph_of ms x, in_degree_of ms ?d) else Inl KeyError)"
      by (rule Cons.IH)
    finally show ?thesis
      using Some by (simp only: g d dom) auto
  qed
qed

lemma release_dependents_result:
  assumes "release_dependents ts deps d q = Inr (d', q')"
  shows "\<exists>new. q' = q @ new \<and> set new \<subseteq> set ts \<and> distinct (map id_task new) \<and>
          (\<forall>x. x \<in> id_task ` set new \<longleftrightarrow>
                 (\<exists>v. d x = Some v \<and> 1 \<le> v \<and> v \<le> int (count_list deps x))) \<and>
          (\<forall>x. d' x = map_option (\<lambda>v. v - int (count_list deps x)) (d x))"
  using assms
proof (induction deps arbitrary: d q)
  case Nil
  then show ?case by (auto simp: option.map_ident)
next
  case (Cons dep deps)
  from Cons.prems show ?case
  proof (cases rule: release_dependents_Cons_cases)
    case (miss v)
    let ?d = "d(dep \<mapsto> v - 1)"
    from Cons.IH[of ?d q, OF miss(3)] obtain new where
      n: "q' = q @ new" "set new \<subseteq> set ts" "distinct (map id_task new)"
      and mem: "\<And>x. x \<in> id_task ` set new \<longleftrightarrow>
                 (\<exists>w. ?d x = Some w \<and> 1 \<le> w \<and> w \<le> int (count_list deps x))"
      and val: "\<And>x. d' x = map_option (\<lambda>w. w - int (count_list deps x)) (?d x)"
      by blast
    have "\<And>x. x \<in> id_task ` set new \<longleftrightarrow>
                 (\<exists>w. d x = Some w \<and> 1 \<le> w \<and> w \<le> int (count_list (dep # deps) x))"
      unfolding mem using miss(1,2) by (auto split: if_splits)
    moreover have "\<And>x. d' x = map_option (\<lambda>w. w - int (count_list (dep # deps) x)) (d x)"
      unfolding val using miss(1) by auto
    ultimately show ?thesis using n by blast
  next
    case (hit t)
    let ?d = "d(dep \<mapsto> 0)"
    from find_Some_id[OF hit(2)] have t: "id_task t = dep" "t \<in> set ts" by auto
    from Cons.IH[of ?d "q @ [t]", OF hit(3)] obtain new where
      n: "q' = (q @ [t]) @ new" "set new \<subseteq> set ts" "distinct (map id_task new)"
      and mem: "\<And>x. x \<in> id_task ` set new \<longleftrightarrow>
                 (\<exists>w. ?d x = Some w \<and> 1 \<le> w \<and> w \<le> int (count_list deps x))"
      and val: "\<And>x. d' x = map_option (\<lambda>w. w - int (count_list deps x)) (?d x)"
      by blast
    have notin: "dep \<notin> id_task ` set new" unfolding mem by simp
    have 1: "q' = q @ (t # new)" using n by simp
    have 2: "set (t # new) \<subseteq> set ts" using n t by simp
    have 3: "distinct (map id_task (t # new))" using n t notin by auto
    have 4: "\<And>x. x \<in> id_task ` set (t # new) \<longleftrightarrow>
                 (\<exists>w. d x = Some w \<and> 1 \<le> w \<and> w \<le> int (count_list (dep # deps) x))"
    proof -
      fix x
      show "x \<in> id_task ` set (t # new) \<longleftrightarrow>
                 (\<exists>w. d x = Some w \<and> 1 \<le> w \<and> w \<le> int (count_list (dep # deps) x))"
      proof (cases "x = dep")
        case True
        then show ?thesis using t hit(1) by simp
      next
        case False
        then have "x \<in> id_task ` set (t # new) \<longleftrightarrow> x \<in> id_task ` set new"
          using t by auto
        then show ?thesis unfolding mem using False by simp
      qed
    qed
    have 5: "\<And>x. d' x = map_option (\<lambda>w. w - int (count_list (dep # deps) x)) (d x)"
      unfolding val using hit(1) by auto
    from 1 2 3 4 5 show ?thesis by blast
  qed
qed

lemma release_dependents_succeeds:
  assumes "set deps \<subseteq> dom d" and "set deps \<subseteq> id_task ` set ts"
  shows "\<exists>r. release_dependents ts deps d q = Inr r"
  using assms
proof (induction deps arbitrary: d q)
  case Nil
  then show ?case by simp
next
  case (Cons dep deps)
  from Cons.prems obtain v where v: "d dep = Some v" by auto
  from Cons.prems have "dep \<in> id_task ` set ts" by simp
  then obtain t where t: "find (\<lambda>t. id_task t = dep) ts = Some t"
    by (cases "find (\<lambda>t. id_task t = dep) ts") (auto simp: find_None_iff)
  show ?case
  proof (cases "v = 1")
    case True
    have "set deps \<subseteq> dom (d(dep \<mapsto> 0))" using Cons.prems by auto
    moreover have "set deps \<subseteq> id_task ` set ts" using Cons.prems by simp
    ultimately have "\<exists>r. release_dependents ts deps (d(dep \<mapsto> 0)) (q @ [t]) = Inr r"
      by (rule Cons.IH[of "d(dep \<mapsto> 0)" "q @ [t]"])
    moreover have "release_dependents ts (dep # deps) d q
           = release_dependents ts deps (d(dep \<mapsto> 0)) (q @ [t])"
      using v True t by (intro release_dependents_hit) simp_all
    ultimately show ?thesis by (simp only:)
  next
    case False
    have "set deps \<subseteq> dom (d(dep \<mapsto> v - 1))" using Cons.prems by auto
    moreover have "set deps \<subseteq> id_task ` set ts" using Cons.prems by simp
    ultimately have "\<exists>r. release_dependents ts deps (d(dep \<mapsto> v - 1)) q = Inr r"
      by (rule Cons.IH[of "d(dep \<mapsto> v - 1)" q])
    moreover have "release_dependents ts (dep # deps) d q
           = release_dependents ts deps (d(dep \<mapsto> v - 1)) q"
      using v False by (intro release_dependents_miss) simp_all
    ultimately show ?thesis by (simp only:)
  qed
qed

section \<open>The invariant of the scheduling loops\<close>

definition unmet :: "message list \<Rightarrow> string set \<Rightarrow> string \<Rightarrow> int" where
  "unmet M D x = int (length (filter (\<lambda>m. receiver m = x \<and> sender m \<notin> D) M))"

definition loop_inv ::
  "message list \<Rightarrow> task list \<Rightarrow> task list \<Rightarrow> (string \<rightharpoonup> int) \<Rightarrow> string list \<Rightarrow> bool" where
  "loop_inv M ts q d done \<longleftrightarrow>
     distinct (map id_task q) \<and> distinct done \<and> id_task ` set q \<inter> set done = {} \<and>
     set q \<subseteq> set ts \<and> set done \<subseteq> id_task ` set ts \<and>
     (\<forall>x \<in> id_task ` set ts. d x = Some (unmet M (set done) x)) \<and>
     (\<forall>x \<in> id_task ` set ts.
        unmet M (set done) x = 0 \<longleftrightarrow> x \<in> id_task ` set q \<union> set done) \<and>
     (\<forall>i < length done. \<forall>m \<in> set M.
        receiver m = done ! i \<longrightarrow> (\<exists>j < i. done ! j = sender m))"

lemma count_list_graph_of:
  "count_list (graph_of M a) x = length (filter (\<lambda>m. sender m = a \<and> receiver m = x) M)"
  by (induction M) (auto simp: graph_of_def)

lemma set_graph_of: "set (graph_of M a) \<subseteq> receiver ` set M"
  by (auto simp: graph_of_def)

lemma unmet_insert:
  "a \<notin> D \<Longrightarrow> unmet M D x = unmet M (insert a D) x + int (count_list (graph_of M a) x)"
  by (induction M) (auto simp: unmet_def graph_of_def)

lemma unmet_zero_iff:
  "unmet M D x = 0 \<longleftrightarrow> (\<forall>m \<in> set M. receiver m = x \<longrightarrow> sender m \<in> D)"
  by (auto simp: unmet_def filter_empty_conv)

lemma unmet_nonneg: "0 \<le> unmet M D x"
  by (simp add: unmet_def)

lemma distinct_map_sort_key:
  "distinct (map f (sort_key k xs)) = distinct (map f xs)"
proof -
  have "mset (map f (sort_key k xs)) = mset (map f xs)" by simp
  then show ?thesis by (rule mset_eq_imp_distinct_iff)
qed

lemma loop_inv_step:
  assumes inv: "loop_inv M ts (t # q) d done"
    and recv: "receiver ` set M \<subseteq> id_task ` set ts"
  shows "\<exists>d' q'. release_dependents ts (graph_of M (id_task t)) d q = Inr (d', q') \<and>
           loop_inv M ts (sort_key key q') d' (done @ [id_task t])"
proof -
  let ?a = "id_task t"
  let ?deps = "graph_of M ?a"
  let ?ids = "id_task ` set ts"
  let ?D = "set done"
  let ?D' = "set (done @ [?a])"
  have dq: "distinct (map id_task (t # q))"
    using inv unfolding loop_inv_def by (elim conjE)
  have dd: "distinct done"
    using inv unfolding loop_inv_def by (elim conjE)
  have disj: "id_task ` set (t # q) \<inter> ?D = {}"
    using inv unfolding loop_inv_def by (elim conjE)
  have qts: "set (t # q) \<subseteq> set ts"
    using inv unfolding loop_inv_def by (elim conjE)
  have dts: "?D \<subseteq> ?ids"
    using inv unfolding loop_inv_def by (elim conjE)
  have "\<forall>x \<in> ?ids. d x = Some (unmet M ?D x)"
    using inv unfolding loop_inv_def by (elim conjE)
  then have dval: "\<And>x. x \<in> ?ids \<Longrightarrow> d x = Some (unmet M ?D x)"
    by blast
  have "\<forall>x \<in> ?ids. unmet M ?D x = 0 \<longleftrightarrow> x \<in> id_task ` set (t # q) \<union> ?D"
    using inv unfolding loop_inv_def by (elim conjE)
  then have zero: "\<And>x. x \<in> ?ids \<Longrightarrow>
      unmet M ?D x = 0 \<longleftrightarrow> x \<in> id_task ` set (t # q) \<union> ?D"
    by blast
  have "\<forall>i < length done. \<forall>m \<in> set M.
        receiver m = done ! i \<longrightarrow> (\<exists>j < i. done ! j = sender m)"
    using inv unfolding loop_inv_def by (elim conjE)
  then have prec: "\<And>i m. i < length done \<Longrightarrow> m \<in> set M \<Longrightarrow> receiver m = done ! i
                 \<Longrightarrow> \<exists>j < i. done ! j = sender m"
    by blast
  have a_ids: "?a \<in> ?ids" using qts by auto
  have a_notD: "?a \<notin> ?D" using disj by auto
  have a_notq: "?a \<notin> id_task ` set q" using dq by auto
  have deps_ids: "set ?deps \<subseteq> ?ids" using set_graph_of recv by blast
  have deps_dom: "set ?deps \<subseteq> dom d" using deps_ids dval by blast
  from release_dependents_succeeds[OF deps_dom deps_ids, of q]
  obtain d' q' where rel: "release_dependents ts ?deps d q = Inr (d', q')"
    by (metis surj_pair)
  from release_dependents_result[OF rel] obtain new where
    q': "q' = q @ new" and nts: "set new \<subseteq> set ts" and dn: "distinct (map id_task new)"
    and mem: "\<And>x. x \<in> id_task ` set new \<longleftrightarrow>
                 (\<exists>v. d x = Some v \<and> 1 \<le> v \<and> v \<le> int (count_list ?deps x))"
    and val: "\<And>x. d' x = map_option (\<lambda>v. v - int (count_list ?deps x)) (d x)"
    by blast
  have D': "?D' = insert ?a ?D" by simp
  have split: "\<And>x. unmet M ?D x = unmet M ?D' x + int (count_list ?deps x)"
    unfolding D' by (rule unmet_insert[OF a_notD])
  have new_iff: "\<And>x. x \<in> ?ids \<Longrightarrow>
      x \<in> id_task ` set new \<longleftrightarrow> 1 \<le> unmet M ?D x \<and> unmet M ?D' x = 0"
  proof -
    fix x assume x: "x \<in> ?ids"
    have "0 \<le> unmet M ?D' x" by (rule unmet_nonneg)
    with split[of x] show "x \<in> id_task ` set new \<longleftrightarrow> 1 \<le> unmet M ?D x \<and> unmet M ?D' x = 0"
      unfolding mem dval[OF x] by auto
  qed
  have new_ids: "id_task ` set new \<subseteq> ?ids" using nts by auto
  have new_fresh: "id_task ` set new \<inter> (id_task ` set (t # q) \<union> ?D) = {}"
  proof -
    { fix x assume xn: "x \<in> id_task ` set new" and xo: "x \<in> id_task ` set (t # q) \<union> ?D"
      from xn new_ids have x: "x \<in> ?ids" by blast
      from new_iff[OF x] xn have "1 \<le> unmet M ?D x" by simp
      moreover from zero[OF x] xo have "unmet M ?D x = 0" by simp
      ultimately have False by simp }
    then show ?thesis by blast
  qed
  have 1: "distinct (map id_task (sort_key key q'))"
  proof -
    have "distinct (map id_task q)" using dq by simp
    moreover have "set (map id_task q) \<inter> set (map id_task new) = {}"
      using new_fresh by (simp only: set_map) auto
    ultimately have "distinct (map id_task q @ map id_task new)"
      using dn by (simp only: distinct_append)
    then have "distinct (map id_task (q @ new))" by simp
    then show ?thesis unfolding q' distinct_map_sort_key .
  qed
  have 2: "distinct (done @ [?a])" using dd a_notD by simp
  have 3: "id_task ` set (sort_key key q') \<inter> ?D' = {}"
    using disj new_fresh a_notq unfolding q' by auto
  have 4: "set (sort_key key q') \<subseteq> set ts" using qts nts unfolding q' by auto
  have 5: "?D' \<subseteq> ?ids" using dts a_ids by auto
  have 6: "\<forall>x \<in> ?ids. d' x = Some (unmet M ?D' x)"
  proof
    fix x assume x: "x \<in> ?ids"
    show "d' x = Some (unmet M ?D' x)"
      unfolding val dval[OF x] using split[of x] by simp
  qed
  have 7: "\<forall>x \<in> ?ids. unmet M ?D' x = 0 \<longleftrightarrow> x \<in> id_task ` set (sort_key key q') \<union> ?D'"
  proof
    fix x assume x: "x \<in> ?ids"
    have nn: "0 \<le> unmet M ?D' x" by (rule unmet_nonneg)
    have "x \<in> id_task ` set (sort_key key q') \<union> ?D'
            \<longleftrightarrow> x \<in> id_task ` set (t # q) \<union> ?D \<or> x \<in> id_task ` set new"
      unfolding q' by auto
    also have "\<dots> \<longleftrightarrow> unmet M ?D x = 0 \<or> (1 \<le> unmet M ?D x \<and> unmet M ?D' x = 0)"
      unfolding zero[OF x] new_iff[OF x] ..
    also have "\<dots> \<longleftrightarrow> unmet M ?D' x = 0"
      using split[of x] nn unmet_nonneg[of M ?D x] by auto
    finally show "unmet M ?D' x = 0 \<longleftrightarrow> x \<in> id_task ` set (sort_key key q') \<union> ?D'" ..
  qed
  have 8: "\<forall>i < length (done @ [?a]). \<forall>m \<in> set M.
        receiver m = (done @ [?a]) ! i \<longrightarrow> (\<exists>j < i. (done @ [?a]) ! j = sender m)"
  proof (intro allI impI ballI)
    fix i m assume i: "i < length (done @ [?a])" and m: "m \<in> set M"
      and r: "receiver m = (done @ [?a]) ! i"
    show "\<exists>j < i. (done @ [?a]) ! j = sender m"
    proof (cases "i < length done")
      case True
      with r have "receiver m = done ! i" by (simp add: nth_append)
      from prec[OF True m this] obtain j where j: "j < i" "done ! j = sender m" by blast
      from j True have "(done @ [?a]) ! j = sender m" by (simp add: nth_append)
      with j(1) show ?thesis by blast
    next
      case False
      with i have ieq: "i = length done" by simp
      with r have ra: "receiver m = ?a" by simp
      from zero[OF a_ids] have "unmet M ?D ?a = 0" by simp
      then have "\<forall>m \<in> set M. receiver m = ?a \<longrightarrow> sender m \<in> ?D"
        by (simp only: unmet_zero_iff)
      with m ra have "sender m \<in> ?D" by blast
      then obtain j where j: "j < length done" "done ! j = sender m"
        unfolding in_set_conv_nth by blast
      then have "(done @ [?a]) ! j = sender m" by (simp add: nth_append)
      with j(1) ieq show ?thesis by blast
    qed
  qed
  from 1 2 3 4 5 6 7 8 have "loop_inv M ts (sort_key key q') d' (done @ [?a])"
    unfolding loop_inv_def by (intro conjI)
  with rel show ?thesis by blast
qed

lemma single_node_loop_inv:
  assumes "loop_inv M ts q d (map task_id sched)"
    and "receiver ` set M \<subseteq> id_task ` set ts"
  shows "\<exists>sched' d'. single_node_loop key ts (graph_of M) q d now sched = Inr sched' \<and>
           loop_inv M ts [] d' (map task_id sched')"
  using assms
proof (induction key ts "graph_of M" q d now sched rule: single_node_loop.induct)
  case (1 key ts in_degree current_time sched)
  then show ?case by auto
next
  case (2 key ts t ready_queue in_degree current_time sched)
  let ?e = "\<lparr>task_id = id_task t, node_id = 1, start_time = current_time,
             end_time = current_time + wcet t, deadline = deadline_task t\<rparr>"
  from loop_inv_step[OF "2.prems"(1) "2.prems"(2), of key]
  obtain d' q' where
    rel: "release_dependents ts (graph_of M (id_task t)) in_degree ready_queue = Inr (d', q')"
    and inv': "loop_inv M ts (sort_key key q') d' (map task_id sched @ [id_task t])"
    by blast
  from inv' have inv'': "loop_inv M ts (sort_key key q') d' (map task_id (sched @ [?e]))"
    by simp
  from "2.hyps"[OF refl refl refl rel refl inv'' "2.prems"(2)]
  obtain sched' d'' where
    "single_node_loop key ts (graph_of M) (sort_key key q') d' (current_time + wcet t)
       (sched @ [?e]) = Inr sched'"
    and "loop_inv M ts [] d'' (map task_id sched')"
    by blast
  then show ?case using rel by (auto simp: Let_def)
qed

definition dependency_edges :: "message list \<Rightarrow> (string \<times> string) set" where
  "dependency_edges ms = (\<lambda>m. (sender m, receiver m)) ` set ms"

lemma in_degree_of_init:
  "in_degree_of M (in_degree_init ts) x
     = (if x \<in> id_task ` set ts then Some (unmet M {} x) else None)"
  by (simp add: in_degree_of_def in_degree_init_apply unmet_def)

lemma loop_inv_init:
  assumes dist: "distinct (map id_task ts)"
    and d: "\<And>x. d x = (if x \<in> id_task ` set ts then Some (unmet M {} x) else None)"
  shows "loop_inv M ts (sort_key key (filter (\<lambda>t. d (id_task t) = Some 0) ts)) d []"
proof -
  let ?q = "sort_key key (filter (\<lambda>t. d (id_task t) = Some 0) ts)"
  have 1: "distinct (map id_task ?q)"
    unfolding distinct_map_sort_key using dist by (rule distinct_map_filter)
  have 2: "distinct ([]::string list)" by simp
  have 3: "id_task ` set ?q \<inter> set [] = {}" by simp
  have 4: "set ?q \<subseteq> set ts" by auto
  have 5: "set [] \<subseteq> id_task ` set ts" by simp
  have 6: "\<forall>x \<in> id_task ` set ts. d x = Some (unmet M (set []) x)"
    using d by simp
  have 7: "\<forall>x \<in> id_task ` set ts.
        unmet M (set []) x = 0 \<longleftrightarrow> x \<in> id_task ` set ?q \<union> set []"
  proof
    fix x assume x: "x \<in> id_task ` set ts"
    have "x \<in> id_task ` set ?q \<longleftrightarrow> (\<exists>t \<in> set ts. id_task t = x \<and> d (id_task t) = Some 0)"
      by auto
    also have "\<dots> \<longleftrightarrow> d x = Some 0" using x by auto
    also have "\<dots> \<longleftrightarrow> unmet M {} x = 0" using d[of x] x by simp
    finally show "unmet M (set []) x = 0 \<longleftrightarrow> x \<in> id_task ` set ?q \<union> set []" by simp
  qed
  have 8: "\<forall>i < length ([]::string list). \<forall>m \<in> set M.
        receiver m = [] ! i \<longrightarrow> (\<exists>j < i. [] ! j = sender m)"
    by simp
  from 1 2 3 4 5 6 7 8 show ?thesis
    unfolding loop_inv_def by (intro conjI)
qed

lemma loop_inv_complete:
  assumes inv: "loop_inv M ts [] d done"
    and snd: "sender ` set M \<subseteq> id_task ` set ts"
    and acyc: "acyclic (dependency_edges M)"
  shows "set done = id_task ` set ts"
proof -
  let ?ids = "id_task ` set ts"
  have dts: "set done \<subseteq> ?ids"
    using inv unfolding loop_inv_def by (elim conjE)
  have "\<forall>x \<in> ?ids. unmet M (set done) x = 0
          \<longleftrightarrow> x \<in> id_task ` set ([]::task list) \<union> set done"
    using inv unfolding loop_inv_def by (elim conjE)
  then have zero: "\<And>x. x \<in> ?ids \<Longrightarrow> unmet M (set done) x = 0 \<Longrightarrow> x \<in> set done"
    by simp
  have fin: "finite (dependency_edges M)" by (simp add: dependency_edges_def)
  have wf: "wf (dependency_edges M)" by (rule finite_acyclic_wf[OF fin acyc])
  have "?ids \<subseteq> set done"
  proof (rule ccontr)
    assume "\<not> ?ids \<subseteq> set done"
    then obtain y where "y \<in> ?ids - set done" by blast
    from wfE_min[OF wf this] obtain z where z: "z \<in> ?ids - set done"
      and min: "\<And>y. (y, z) \<in> dependency_edges M \<Longrightarrow> y \<notin> ?ids - set done"
      by blast
    from z zero[of z] have "unmet M (set done) z \<noteq> 0" by blast
    then obtain m where m: "m \<in> set M" "receiver m = z" "sender m \<notin> set done"
      unfolding unmet_zero_iff by blast
    then have "(sender m, z) \<in> dependency_edges M"
      by (auto simp: dependency_edges_def)
    from min[OF this] m(3) have "sender m \<notin> ?ids" by blast
    with snd m(1) show False by blast
  qed
  with dts show ?thesis by blast
qed

lemma loop_inv_message:
  assumes inv: "loop_inv M ts q d done"
    and "i < length done" and "m \<in> set M" and "receiver m = done ! i"
  shows "\<exists>j < i. done ! j = sender m"
proof -
  have "\<forall>i < length done. \<forall>m \<in> set M.
        receiver m = done ! i \<longrightarrow> (\<exists>j < i. done ! j = sender m)"
    using inv unfolding loop_inv_def by (elim conjE)
  then have "\<And>i m. i < length done \<Longrightarrow> m \<in> set M \<Longrightarrow> receiver m = done ! i
                 \<Longrightarrow> \<exists>j < i. done ! j = sender m"
    by blast
  from this[OF assms(2,3,4)] show ?thesis .
qed

lemma dependency_edgesE:
  assumes "(a, b) \<in> dependency_edges M"
  obtains m where "m \<in> set M" and "sender m = a" and "receiver m = b"
  using assms unfolding dependency_edges_def by auto

lemma loop_inv_precedence:
  assumes inv: "loop_inv M ts q d done"
    and edge: "(a, b) \<in> (dependency_edges M)\<^sup>+"
    and i: "i < length done" "done ! i = b"
  shows "\<exists>j < i. done ! j = a"
  using edge i
proof (induction arbitrary: i rule: trancl_induct)
  case (base y)
  from base(1) obtain m where m: "m \<in> set M" "sender m = a" "receiver m = y"
    by (rule dependency_edgesE)
  from m(3) base(3) have "receiver m = done ! i" by simp
  from loop_inv_message[OF inv base(2) m(1) this] m(2) show ?case by simp
next
  case (step y z)
  from step(2) obtain m where m: "m \<in> set M" "sender m = y" "receiver m = z"
    by (rule dependency_edgesE)
  from m(3) step(5) have "receiver m = done ! i" by simp
  from loop_inv_message[OF inv step(4) m(1) this] m(2)
  obtain j where j: "j < i" "done ! j = y" by auto
  from j(1) step(4) have "j < length done" by simp
  from step.IH[OF this j(2)] obtain k where k: "k < j" "done ! k = a" by blast
  from k(1) j(1) have "k < i" by simp
  with k(2) show ?case by blast
qed

lemma loop_inv_no_cycle:
  assumes inv: "loop_inv M ts q d done"
    and cyc: "(x, x) \<in> (dependency_edges M)\<^sup>+"
  shows "x \<notin> set done"
proof
  assume "x \<in> set done"
  then obtain i where i: "i < length done" "done ! i = x"
    by (auto simp: in_set_conv_nth)
  from loop_inv_precedence[OF inv cyc i] obtain j where j: "j < i" "done ! j = x" by blast
  have "distinct done"
    using inv unfolding loop_inv_def by (elim conjE)
  moreover from i j have "j < length done" by simp
  ultimately have "(done ! i = done ! j) = (i = j)"
    using i(1) by (intro nth_eq_iff_index_eq)
  with i j show False by simp
qed

lemma loop_inv_distinct: "loop_inv M ts q d done \<Longrightarrow> distinct done"
  unfolding loop_inv_def by (elim conjE)

lemma loop_inv_subset: "loop_inv M ts q d done \<Longrightarrow> set done \<subseteq> id_task ` set ts"
  unfolding loop_inv_def by (elim conjE)

lemma multi_node_loop_Cons_Inr:
  assumes "multi_node_loop ts ls g (t # q) d nt sched = Inr s"
  obtains nid start d' q' nt' where "min_node nt = Inr nid" and "map_of nt nid = Some start"
    and "release_dependents_multi ts ls nid (g (id_task t)) d q
           (AList.update nid (start + wcet t) nt) = Inr (d', q', nt')"
    and "multi_node_loop ts ls g (sort_key edf_key q') d' nt'
           (sched @ [\<lparr>task_id = id_task t, node_id = nid, start_time = start,
                       end_time = start + wcet t, deadline = deadline_task t\<rparr>]) = Inr s"
  using assms by (auto simp: Let_def split: sum.splits option.splits prod.splits)

lemma multi_node_loop_inv:
  assumes "multi_node_loop ts ls (graph_of M) q d nt sched = Inr s"
    and "loop_inv M ts q d (map task_id sched)"
    and "receiver ` set M \<subseteq> id_task ` set ts"
  shows "\<exists>d'. loop_inv M ts [] d' (map task_id s)"
  using assms
proof (induction ts ls "graph_of M" q d nt sched rule: multi_node_loop.induct)
  case (1 ts ls in_degree node_time sched)
  then show ?case by auto
next
  case (2 ts ls t ready_queue in_degree node_time sched)
  from "2.prems"(1) obtain nid start d' q' nt' where
    mn: "min_node node_time = Inr nid" and mo: "map_of node_time nid = Some start"
    and rel: "release_dependents_multi ts ls nid (graph_of M (id_task t)) in_degree
                ready_queue (AList.update nid (start + wcet t) node_time) = Inr (d', q', nt')"
    and rec: "multi_node_loop ts ls (graph_of M) (sort_key edf_key q') d' nt'
           (sched @ [\<lparr>task_id = id_task t, node_id = nid, start_time = start,
                       end_time = start + wcet t, deadline = deadline_task t\<rparr>]) = Inr s"
    by (rule multi_node_loop_Cons_Inr)
  from loop_inv_step[OF "2.prems"(2) "2.prems"(3), of edf_key]
    release_dependents_multi_single[OF rel]
  have "loop_inv M ts (sort_key edf_key q') d' (map task_id sched @ [id_task t])"
    by auto
  then have inv': "loop_inv M ts (sort_key edf_key q') d'
     (map task_id (sched @ [\<lparr>task_id = id_task t, node_id = nid, start_time = start,
                       end_time = start + wcet t, deadline = deadline_task t\<rparr>]))"
    by simp
  from "2.hyps"[OF mn mo refl refl refl rel refl refl rec inv' "2.prems"(3)]
  show ?case .
qed

section \<open>The operations in terms of their loops\<close>

definition ready_init :: "(task \<Rightarrow> int) \<Rightarrow> message list \<Rightarrow> task list \<Rightarrow> task list" where
  "ready_init key M ts0 =
     sort_key key (filter (\<lambda>t. in_degree_of M (in_degree_init ts0) (id_task t) = Some 0)
       (sort_key key ts0))"

lemma ldf_single_node_known:
  assumes "receiver ` set (messages app) \<subseteq> id_task ` set (tasks app)"
  shows "ldf_single_node app =
     ((case single_node_loop ldf_key (sort_key ldf_key (tasks app)) (graph_of (messages app))
              (ready_init ldf_key (messages app) (tasks app))
              (in_degree_of (messages app) (in_degree_init (tasks app))) 0 [] of
         Inl e \<Rightarrow> Inl e
       | Inr s \<Rightarrow> Inr \<lparr>schedule = s, name = ''LDF Single Node''\<rparr>),
      app\<lparr>tasks := sort_key ldf_key (tasks app)\<rparr>)"
  using assms
  by (simp add: ldf_single_node_def add_messages_result dom_in_degree_init ready_init_def Let_def)

lemma edf_single_node_known:
  assumes "receiver ` set (messages app) \<subseteq> id_task ` set (tasks app)"
  shows "edf_single_node app =
     ((case single_node_loop edf_key (sort_key edf_key (tasks app)) (graph_of (messages app))
              (ready_init edf_key (messages app) (tasks app))
              (in_degree_of (messages app) (in_degree_init (tasks app))) 0 [] of
         Inl e \<Rightarrow> Inl e
       | Inr s \<Rightarrow> Inr \<lparr>schedule = s, name = ''EDF Single Node''\<rparr>),
      app\<lparr>tasks := sort_key edf_key (tasks app)\<rparr>)"
  using assms
  by (simp add: edf_single_node_def add_messages_result dom_in_degree_init ready_init_def Let_def)

lemma edf_multinode_known:
  assumes "receiver ` set (messages app) \<subseteq> id_task ` set (tasks app)"
  shows "edf_multinode app plat =
     ((case multi_node_loop (sort_key edf_key (tasks app)) (links plat)
              (graph_of (messages app)) (ready_init edf_key (messages app) (tasks app))
              (in_degree_of (messages app) (in_degree_init (tasks app)))
              (node_time_init (nodes plat)) [] of
         Inl e \<Rightarrow> Inl e
       | Inr s \<Rightarrow> Inr \<lparr>schedule = s, name = ''EDF Multi Node''\<rparr>),
      app\<lparr>tasks := sort_key edf_key (tasks app)\<rparr>, plat)"
  using assms
  by (simp add: edf_multinode_def add_messages_result dom_in_degree_init ready_init_def Let_def)

lemma ldf_single_node_unknown:
  assumes "\<not> receiver ` set (messages app) \<subseteq> id_task ` set (tasks app)"
  shows "ldf_single_node app = (Inl KeyError, app)"
  using assms by (simp add: ldf_single_node_def add_messages_result dom_in_degree_init)

lemma edf_single_node_unknown:
  assumes "\<not> receiver ` set (messages app) \<subseteq> id_task ` set (tasks app)"
  shows "edf_single_node app = (Inl KeyError, app)"
  using assms by (simp add: edf_single_node_def add_messages_result dom_in_degree_init)

lemma edf_multinode_unknown:
  assumes "\<not> receiver ` set (messages app) \<subseteq> id_task ` set (tasks app)"
  shows "edf_multinode app plat = (Inl KeyError, app, plat)"
  using assms by (simp add: edf_multinode_def add_messages_result dom_in_degree_init)

lemma loop_inv_ready_init:
  assumes dist: "distinct (map id_task ts0)"
  shows "loop_inv M (sort_key key ts0) (ready_init key M ts0)
           (in_degree_of M (in_degree_init ts0)) []"
proof -
  have d: "distinct (map id_task (sort_key key ts0))"
    unfolding distinct_map_sort_key by (rule dist)
  have "\<And>x. in_degree_of M (in_degree_init ts0) x
          = (if x \<in> id_task ` set (sort_key key ts0) then Some (unmet M {} x) else None)"
    by (simp add: in_degree_of_init)
  from loop_inv_init[OF d this, of key] show ?thesis
    unfolding ready_init_def .
qed

lemma single_node_final_inv:
  assumes dist: "distinct (map id_task ts0)"
    and recv: "receiver ` set M \<subseteq> id_task ` set ts0"
  shows "\<exists>sched d'. single_node_loop key (sort_key key ts0) (graph_of M) (ready_init key M ts0)
             (in_degree_of M (in_degree_init ts0)) 0 [] = Inr sched \<and>
           loop_inv M (sort_key key ts0) [] d' (map task_id sched)"
proof -
  have r: "receiver ` set M \<subseteq> id_task ` set (sort_key key ts0)" using recv by simp
  have i: "loop_inv M (sort_key key ts0) (ready_init key M ts0)
           (in_degree_of M (in_degree_init ts0)) (map task_id [])"
    using loop_inv_ready_init[OF dist, of M key] by simp
  from single_node_loop_inv[OF i r] show ?thesis .
qed

lemma multi_node_final_inv:
  assumes dist: "distinct (map id_task ts0)"
    and recv: "receiver ` set M \<subseteq> id_task ` set ts0"
    and run: "multi_node_loop (sort_key edf_key ts0) ls (graph_of M) (ready_init edf_key M ts0)
             (in_degree_of M (in_degree_init ts0)) nt [] = Inr sched"
  shows "\<exists>d'. loop_inv M (sort_key edf_key ts0) [] d' (map task_id sched)"
proof -
  have r: "receiver ` set M \<subseteq> id_task ` set (sort_key edf_key ts0)" using recv by simp
  have i: "loop_inv M (sort_key edf_key ts0) (ready_init edf_key M ts0)
           (in_degree_of M (in_degree_init ts0)) (map task_id [])"
    using loop_inv_ready_init[OF dist, of M edf_key] by simp
  from multi_node_loop_inv[OF run i r] show ?thesis .
qed

lemma final_inv_once:
  assumes inv: "loop_inv M (sort_key key ts0) [] d' (map task_id sched)"
    and dist: "distinct (map id_task ts0)"
    and snd: "sender ` set M \<subseteq> id_task ` set ts0"
    and acyc: "acyclic (dependency_edges M)"
  shows "mset (map task_id sched) = mset (map id_task ts0)"
proof -
  have s: "sender ` set M \<subseteq> id_task ` set (sort_key key ts0)" using snd by simp
  from loop_inv_complete[OF inv s acyc]
  have "set (map task_id sched) = set (map id_task ts0)" by simp
  moreover from loop_inv_distinct[OF inv] have "distinct (map task_id sched)" .
  ultimately show ?thesis using dist
    by (simp only: set_eq_iff_mset_eq_distinct)
qed

section \<open>When the multi-node loop returns\<close>

lemma fold_min_mem:
  "fold (\<lambda>c best. if snd c < snd best then c else best) ps p \<in> set (p # ps)"
proof (induction ps arbitrary: p)
  case Nil
  show ?case by simp
next
  case (Cons c ps)
  from Cons.IH[of "if snd c < snd p then c else p"] show ?case
    by (auto split: if_splits)
qed

lemma min_node_mem:
  assumes "min_node nt = Inr k"
  shows "k \<in> fst ` set nt"
proof (cases nt)
  case Nil
  with assms show ?thesis by simp
next
  case (Cons p ps)
  let ?b = "fold (\<lambda>c best. if snd c < snd best then c else best) ps p"
  from assms have "Inr (fst ?b) = (Inr k :: error + int)"
    unfolding Cons min_node.simps .
  then have k: "k = fst ?b" by (simp only: sum.inject)
  have "?b \<in> set nt" unfolding Cons by (rule fold_min_mem)
  then have "fst ?b \<in> fst ` set nt" by (rule imageI)
  then show ?thesis unfolding k .
qed

lemma min_node_succeeds: "nt \<noteq> [] \<Longrightarrow> \<exists>k. min_node nt = Inr k"
  by (cases nt) simp_all

lemma map_of_key: "k \<in> fst ` set nt \<Longrightarrow> \<exists>v. map_of nt k = Some v"
  by (cases "map_of nt k") (simp_all add: map_of_eq_None_iff)

lemma keys_update: "k \<in> fst ` set nt \<Longrightarrow> fst ` set (AList.update k v nt) = fst ` set nt"
  by (auto simp: dom_update)

definition hints_known :: "task list \<Rightarrow> int set \<Rightarrow> bool" where
  "hints_known ts ks \<longleftrightarrow>
     (\<forall>t \<in> set ts. \<forall>h. node_id_task t = Some h \<longrightarrow> h \<noteq> 0 \<longrightarrow> h \<in> ks)"

lemma apply_link_delay_succeeds:
  assumes "hints_known ts (fst ` set nt)" and "t \<in> set ts" and "nid \<in> fst ` set nt"
  shows "\<exists>nt'. apply_link_delay ls nid t nt = Inr nt' \<and> fst ` set nt' = fst ` set nt"
proof (cases "node_id_task t")
  case None
  then show ?thesis by (simp add: apply_link_delay_def)
next
  case (Some h)
  show ?thesis
  proof (cases "h \<noteq> 0 \<and> h \<noteq> nid")
    case False
    with Some show ?thesis by (auto simp: apply_link_delay_def)
  next
    case True
    with assms(1,2) Some have h: "h \<in> fst ` set nt" unfolding hints_known_def by blast
    from map_of_key[OF h] obtain c where c: "map_of nt h = Some c" by blast
    from map_of_key[OF assms(3)] obtain c0 where c0: "map_of nt nid = Some c0" by blast
    from Some True c c0 have "apply_link_delay ls nid t nt
        = Inr (AList.update h (max c (c0 + find_link_delay ls nid h)) nt)"
      by (simp add: apply_link_delay_def)
    with keys_update[OF h] show ?thesis by simp
  qed
qed

lemma release_dependents_multi_succeeds:
  assumes "set deps \<subseteq> dom d" and "set deps \<subseteq> id_task ` set ts"
    and "hints_known ts (fst ` set nt)" and "nid \<in> fst ` set nt"
  shows "\<exists>d' q' nt'. release_dependents_multi ts ls nid deps d q nt = Inr (d', q', nt') \<and>
           fst ` set nt' = fst ` set nt"
  using assms
proof (induction deps arbitrary: d q nt)
  case Nil
  then show ?case by simp
next
  case (Cons dep deps)
  from Cons.prems obtain v where v: "d dep = Some v" by auto
  from Cons.prems have "dep \<in> id_task ` set ts" by simp
  then obtain t where t: "find (\<lambda>t. id_task t = dep) ts = Some t"
    by (cases "find (\<lambda>t. id_task t = dep) ts") (auto simp: find_None_iff)
  have ids: "set deps \<subseteq> id_task ` set ts" using Cons.prems by simp
  show ?case
  proof (cases "v = 1")
    case True
    from find_Some_id[OF t] have tin: "t \<in> set ts" by simp
    from apply_link_delay_succeeds[OF Cons.prems(3) tin Cons.prems(4), of ls]
    obtain nt1 where a: "apply_link_delay ls nid t nt = Inr nt1"
      and k: "fst ` set nt1 = fst ` set nt" by blast
    have dom: "set deps \<subseteq> dom (d(dep \<mapsto> 0))" using Cons.prems by auto
    have h1: "hints_known ts (fst ` set nt1)" using Cons.prems(3) k by simp
    have n1: "nid \<in> fst ` set nt1" using Cons.prems(4) k by simp
    from Cons.IH[of "d(dep \<mapsto> 0)" nt1 "q @ [t]", OF dom ids h1 n1]
    obtain d' q' nt' where
      r: "release_dependents_multi ts ls nid deps (d(dep \<mapsto> 0)) (q @ [t]) nt1
            = Inr (d', q', nt')" and k': "fst ` set nt' = fst ` set nt1"
      by blast
    have "release_dependents_multi ts ls nid (dep # deps) d q nt
           = (case apply_link_delay ls nid t nt of
                Inl e \<Rightarrow> Inl e
              | Inr nt' \<Rightarrow>
                  release_dependents_multi ts ls nid deps (d(dep \<mapsto> 0)) (q @ [t]) nt')"
      using v True t by (intro release_dependents_multi_hit) simp_all
    then have "release_dependents_multi ts ls nid (dep # deps) d q nt = Inr (d', q', nt')"
      by (simp only: a r sum.case)
    with k k' show ?thesis by simp
  next
    case False
    have dom: "set deps \<subseteq> dom (d(dep \<mapsto> v - 1))" using Cons.prems by auto
    from Cons.IH[of "d(dep \<mapsto> v - 1)" nt q, OF dom ids Cons.prems(3,4)]
    obtain d' q' nt' where
      r: "release_dependents_multi ts ls nid deps (d(dep \<mapsto> v - 1)) q nt
            = Inr (d', q', nt')" and k': "fst ` set nt' = fst ` set nt"
      by blast
    have "release_dependents_multi ts ls nid (dep # deps) d q nt
           = release_dependents_multi ts ls nid deps (d(dep \<mapsto> v - 1)) q nt"
      using v False by (intro release_dependents_multi_miss) simp_all
    with r k' show ?thesis by simp
  qed
qed

lemma loop_inv_deps:
  assumes inv: "loop_inv M ts (t # q) d done"
    and recv: "receiver ` set M \<subseteq> id_task ` set ts"
  shows "set (graph_of M (id_task t)) \<subseteq> dom d"
    and "set (graph_of M (id_task t)) \<subseteq> id_task ` set ts"
proof -
  show ids: "set (graph_of M (id_task t)) \<subseteq> id_task ` set ts"
    using set_graph_of recv by blast
  have "\<forall>x \<in> id_task ` set ts. d x = Some (unmet M (set done) x)"
    using inv unfolding loop_inv_def by (elim conjE)
  with ids show "set (graph_of M (id_task t)) \<subseteq> dom d" by blast
qed

lemma multi_node_loop_succeeds:
  assumes "loop_inv M ts q d (map task_id sched)"
    and "receiver ` set M \<subseteq> id_task ` set ts"
    and "nt \<noteq> []" and "hints_known ts (fst ` set nt)"
  shows "\<exists>s. multi_node_loop ts ls (graph_of M) q d nt sched = Inr s"
  using assms
proof (induction ts ls "graph_of M" q d nt sched rule: multi_node_loop.induct)
  case (1 ts ls in_degree node_time sched)
  show ?case by simp
next
  case (2 ts ls t ready_queue in_degree node_time sched)
  from min_node_succeeds[OF "2.prems"(3)] obtain nid where mn: "min_node node_time = Inr nid"
    by blast
  from min_node_mem[OF mn] have nk: "nid \<in> fst ` set node_time" .
  from map_of_key[OF nk] obtain start where mo: "map_of node_time nid = Some start" by blast
  let ?nt = "AList.update nid (start + wcet t) node_time"
  let ?e = "\<lparr>task_id = id_task t, node_id = nid, start_time = start,
             end_time = start + wcet t, deadline = deadline_task t\<rparr>"
  have k1: "fst ` set ?nt = fst ` set node_time" by (rule keys_update[OF nk])
  have h1: "hints_known ts (fst ` set ?nt)" using "2.prems"(4) k1 by simp
  have n1: "nid \<in> fst ` set ?nt" using nk k1 by simp
  from release_dependents_multi_succeeds[OF
      loop_inv_deps[OF "2.prems"(1) "2.prems"(2)] h1 n1, of ls ready_queue]
  obtain d' q' nt' where
    rel: "release_dependents_multi ts ls nid (graph_of M (id_task t)) in_degree ready_queue ?nt
            = Inr (d', q', nt')" and k': "fst ` set nt' = fst ` set ?nt"
    by blast
  from loop_inv_step[OF "2.prems"(1) "2.prems"(2), of edf_key]
    release_dependents_multi_single[OF rel]
  have "loop_inv M ts (sort_key edf_key q') d' (map task_id sched @ [id_task t])"
    by auto
  then have inv': "loop_inv M ts (sort_key edf_key q') d' (map task_id (sched @ [?e]))"
    by simp
  have ne: "nt' \<noteq> []" using k' n1 by auto
  have h': "hints_known ts (fst ` set nt')" using h1 k' by simp
  from "2.hyps"[OF mn mo refl refl refl rel refl refl inv' "2.prems"(2) ne h']
  obtain s where "multi_node_loop ts ls (graph_of M) (sort_key edf_key q') d' nt'
     (sched @ [?e]) = Inr s" by blast
  with mn mo rel show ?case by (auto simp: Let_def)
qed

lemma fold_update_keys:
  "fst ` set (fold (\<lambda>n nt. AList.update (id_node n) 0 nt) ns acc)
     = id_node ` set ns \<union> fst ` set acc"
  by (induction ns arbitrary: acc) (auto simp: dom_update)

lemma node_time_init_keys: "fst ` set (node_time_init ns) = id_node ` set ns"
  by (simp add: node_time_init_def fold_update_keys)

section \<open>When the single-node loop returns\<close>

lemma release_dependents_dom:
  assumes "release_dependents ts deps d q = Inr (d', q')"
  shows "dom d' = dom d"
proof -
  from release_dependents_result[OF assms]
  have "\<And>x. d' x = map_option (\<lambda>v. v - int (count_list deps x)) (d x)" by blast
  then show ?thesis by (auto simp: dom_def)
qed

lemma single_node_loop_succeeds:
  assumes "id_task ` set ts \<subseteq> dom d" and "\<And>x. set (g x) \<subseteq> id_task ` set ts"
  shows "\<exists>s. single_node_loop key ts g q d now sched = Inr s"
  using assms
proof (induction key ts g q d now sched rule: single_node_loop.induct)
  case (1 key ts graph in_degree current_time sched)
  show ?case by simp
next
  case (2 key ts graph t ready_queue in_degree current_time sched)
  have ids: "set (graph (id_task t)) \<subseteq> id_task ` set ts" by (rule "2.prems"(2))
  with "2.prems"(1) have dom: "set (graph (id_task t)) \<subseteq> dom in_degree" by blast
  from release_dependents_succeeds[OF dom ids, of ready_queue]
  obtain d' q' where
    rel: "release_dependents ts (graph (id_task t)) in_degree ready_queue = Inr (d', q')"
    by (metis surj_pair)
  from release_dependents_dom[OF rel] "2.prems"(1) have d': "id_task ` set ts \<subseteq> dom d'"
    by simp
  from "2.IH"[OF refl refl refl rel refl d' "2.prems"(2)] rel
  show ?case by (auto simp: Let_def)
qed

lemma single_node_run_succeeds:
  assumes "receiver ` set M \<subseteq> id_task ` set ts0"
  shows "\<exists>s. single_node_loop key (sort_key key ts0) (graph_of M) (ready_init key M ts0)
             (in_degree_of M (in_degree_init ts0)) 0 [] = Inr s"
proof (rule single_node_loop_succeeds)
  show "id_task ` set (sort_key key ts0) \<subseteq> dom (in_degree_of M (in_degree_init ts0))"
    by (auto simp: in_degree_of_init dom_def)
next
  fix x
  show "set (graph_of M x) \<subseteq> id_task ` set (sort_key key ts0)"
    using set_graph_of[of M x] assms by auto
qed

section \<open>The placeholder operations\<close>

text \<open>
  Claim C10. For every application and platform data, \<^verbatim>\<open>ll_multinode\<close> and
  \<^verbatim>\<open>ldf_multinode\<close> return the hard-coded example schedule of four fixed entries,
  under the names "LL Multi Node" and "LDF Multi Node"; the result does not depend on
  the tasks, messages, nodes or links supplied.
\<close>

theorem placeholders_return_example:
  "ll_multinode application_data platform_data =
     \<lparr>schedule =
        [\<lparr>task_id = ''3'', node_id = 0, start_time = 0, end_time = 20, deadline = 256\<rparr>,
         \<lparr>task_id = ''2'', node_id = 0, start_time = 20, end_time = 40, deadline = 300\<rparr>,
         \<lparr>task_id = ''1'', node_id = 0, start_time = 40, end_time = 60, deadline = 250\<rparr>,
         \<lparr>task_id = ''0'', node_id = 0, start_time = 60, end_time = 80, deadline = 250\<rparr>],
      name = ''LL Multi Node''\<rparr>
   \<and> ldf_multinode application_data platform_data =
     \<lparr>schedule =
        [\<lparr>task_id = ''3'', node_id = 0, start_time = 0, end_time = 20, deadline = 256\<rparr>,
         \<lparr>task_id = ''2'', node_id = 0, start_time = 20, end_time = 40, deadline = 300\<rparr>,
         \<lparr>task_id = ''1'', node_id = 0, start_time = 40, end_time = 60, deadline = 250\<rparr>,
         \<lparr>task_id = ''0'', node_id = 0, start_time = 60, end_time = 80, deadline = 250\<rparr>],
      name = ''LDF Multi Node''\<rparr>"
  by (simp add: ll_multinode_def ldf_multinode_def example_schedule_def)

section \<open>Precedence across nodes\<close>

text \<open>
  Claim C3. For every message, the receiver starts no earlier than the sender ends, plus
  the link delay when the two run on different nodes. \<^verbatim>\<open>edf_multinode\<close> breaks this:
  with tasks a (wcet 20, deadline 10) and b (wcet 20, deadline 20), the message a to b,
  nodes 1 and 2 and a link from 1 to 2 of delay 5, task a runs on node 1 from 0 to 20
  and task b, released by a, runs on node 2 from 0 to 20, although it may not start
  before 25.
\<close>

theorem edf_multinode_ignores_precedence:
  "fst (edf_multinode
      \<lparr>tasks = [\<lparr>id_task = ''a'', wcet = 20, deadline_task = 10, node_id_task = None\<rparr>,
                 \<lparr>id_task = ''b'', wcet = 20, deadline_task = 20, node_id_task = None\<rparr>],
        messages = [\<lparr>sender = ''a'', receiver = ''b''\<rparr>]\<rparr>
      \<lparr>nodes = [\<lparr>id_node = 1\<rparr>, \<lparr>id_node = 2\<rparr>],
        links = [\<lparr>start_node = 1, end_node = 2, link_delay = 5\<rparr>]\<rparr>)
   = Inr \<lparr>schedule =
            [\<lparr>task_id = ''a'', node_id = 1, start_time = 0, end_time = 20, deadline = 10\<rparr>,
             \<lparr>task_id = ''b'', node_id = 2, start_time = 0, end_time = 20, deadline = 20\<rparr>],
          name = ''EDF Multi Node''\<rparr>"
  by (simp add: edf_multinode_def in_degree_init_def node_time_init_def edf_key_def
      apply_link_delay_def)

section \<open>Every task exactly once\<close>

text \<open>
  Claim C2. For every input whose dependency graph over the task list is acyclic, the
  schedule returned by \<^verbatim>\<open>ldf_single_node\<close>, \<^verbatim>\<open>edf_single_node\<close> and \<^verbatim>\<open>edf_multinode\<close>
  contains each task id exactly once. The input is one of the data model: task ids are
  unique and every message names tasks of the list, so that the messages are a graph
  over the task list. The two single-node operations then return a schedule, and so does
  \<^verbatim>\<open>edf_multinode\<close> when there is a node and every truthy \<^verbatim>\<open>node_id\<close> of a task is
  the id of a node; whenever \<^verbatim>\<open>edf_multinode\<close> returns, its schedule has the property.
\<close>

theorem acyclic_schedule_has_each_task_once:
  assumes "distinct (map id_task (tasks app))"
    and "sender ` set (messages app) \<subseteq> id_task ` set (tasks app)"
    and "receiver ` set (messages app) \<subseteq> id_task ` set (tasks app)"
    and "acyclic (dependency_edges (messages app))"
  shows "(\<exists>s. fst (ldf_single_node app) = Inr s \<and>
              mset (map task_id (schedule s)) = mset (map id_task (tasks app)))
       \<and> (\<exists>s. fst (edf_single_node app) = Inr s \<and>
              mset (map task_id (schedule s)) = mset (map id_task (tasks app)))
       \<and> (\<forall>s. fst (edf_multinode app plat) = Inr s \<longrightarrow>
              mset (map task_id (schedule s)) = mset (map id_task (tasks app)))
       \<and> (nodes plat \<noteq> [] \<and> hints_known (tasks app) (id_node ` set (nodes plat)) \<longrightarrow>
              (\<exists>s. fst (edf_multinode app plat) = Inr s))"
proof (intro conjI allI impI)
  from single_node_final_inv[OF assms(1,3), of ldf_key] obtain sched d' where
    run: "single_node_loop ldf_key (sort_key ldf_key (tasks app)) (graph_of (messages app))
            (ready_init ldf_key (messages app) (tasks app))
            (in_degree_of (messages app) (in_degree_init (tasks app))) 0 [] = Inr sched"
    and inv: "loop_inv (messages app) (sort_key ldf_key (tasks app)) [] d' (map task_id sched)"
    by blast
  from final_inv_once[OF inv assms(1,2,4)] run
  show "\<exists>s. fst (ldf_single_node app) = Inr s \<and>
              mset (map task_id (schedule s)) = mset (map id_task (tasks app))"
    by (simp add: ldf_single_node_known[OF assms(3)])
next
  from single_node_final_inv[OF assms(1,3), of edf_key] obtain sched d' where
    run: "single_node_loop edf_key (sort_key edf_key (tasks app)) (graph_of (messages app))
            (ready_init edf_key (messages app) (tasks app))
            (in_degree_of (messages app) (in_degree_init (tasks app))) 0 [] = Inr sched"
    and inv: "loop_inv (messages app) (sort_key edf_key (tasks app)) [] d' (map task_id sched)"
    by blast
  from final_inv_once[OF inv assms(1,2,4)] run
  show "\<exists>s. fst (edf_single_node app) = Inr s \<and>
              mset (map task_id (schedule s)) = mset (map id_task (tasks app))"
    by (simp add: edf_single_node_known[OF assms(3)])
next
  fix s assume "fst (edf_multinode app plat) = Inr s"
  then obtain sched where
    run: "multi_node_loop (sort_key edf_key (tasks app)) (links plat)
              (graph_of (messages app)) (ready_init edf_key (messages app) (tasks app))
              (in_degree_of (messages app) (in_degree_init (tasks app)))
              (node_time_init (nodes plat)) [] = Inr sched"
    and s: "schedule s = sched"
    by (auto simp: edf_multinode_known[OF assms(3)] split: sum.splits)
  from multi_node_final_inv[OF assms(1,3) run] obtain d' where
    inv: "loop_inv (messages app) (sort_key edf_key (tasks app)) [] d' (map task_id sched)"
    by blast
  from final_inv_once[OF inv assms(1,2,4)] s
  show "mset (map task_id (schedule s)) = mset (map id_task (tasks app))" by simp
next
  assume p: "nodes plat \<noteq> [] \<and> hints_known (tasks app) (id_node ` set (nodes plat))"
  have i: "loop_inv (messages app) (sort_key edf_key (tasks app))
           (ready_init edf_key (messages app) (tasks app))
           (in_degree_of (messages app) (in_degree_init (tasks app))) (map task_id [])"
    using loop_inv_ready_init[OF assms(1), of "messages app" edf_key] by simp
  have r: "receiver ` set (messages app) \<subseteq> id_task ` set (sort_key edf_key (tasks app))"
    using assms(3) by simp
  have ne: "node_time_init (nodes plat) \<noteq> []"
    using p node_time_init_keys[of "nodes plat"] by auto
  have h: "hints_known (sort_key edf_key (tasks app)) (fst ` set (node_time_init (nodes plat)))"
    using p by (simp add: hints_known_def node_time_init_keys)
  from multi_node_loop_succeeds[OF i r ne h, of "links plat"]
  show "\<exists>s. fst (edf_multinode app plat) = Inr s"
    by (auto simp: edf_multinode_known[OF assms(3)])
qed

theorem acyclic_schedule_has_each_task_once_witness:
  "distinct (map id_task
      [\<lparr>id_task = ''a'', wcet = 20, deadline_task = 10, node_id_task = None\<rparr>,
       \<lparr>id_task = ''b'', wcet = 20, deadline_task = 20, node_id_task = None\<rparr>])
   \<and> acyclic (dependency_edges [\<lparr>sender = ''a'', receiver = ''b''\<rparr>])
   \<and> (\<exists>s. fst (edf_single_node
          \<lparr>tasks = [\<lparr>id_task = ''a'', wcet = 20, deadline_task = 10, node_id_task = None\<rparr>,
                     \<lparr>id_task = ''b'', wcet = 20, deadline_task = 20, node_id_task = None\<rparr>],
            messages = [\<lparr>sender = ''a'', receiver = ''b''\<rparr>]\<rparr>) = Inr s \<and>
        mset (map task_id (schedule s)) = {#''a'', ''b''#})
   \<and> (\<exists>s. fst (ldf_single_node
          \<lparr>tasks = [\<lparr>id_task = ''a'', wcet = 20, deadline_task = 10, node_id_task = None\<rparr>,
                     \<lparr>id_task = ''b'', wcet = 20, deadline_task = 20, node_id_task = None\<rparr>],
            messages = [\<lparr>sender = ''a'', receiver = ''b''\<rparr>]\<rparr>) = Inr s \<and>
        mset (map task_id (schedule s)) = {#''a'', ''b''#})
   \<and> (\<exists>s. fst (edf_multinode
          \<lparr>tasks = [\<lparr>id_task = ''a'', wcet = 20, deadline_task = 10, node_id_task = None\<rparr>,
                     \<lparr>id_task = ''b'', wcet = 20, deadline_task = 20, node_id_task = None\<rparr>],
            messages = [\<lparr>sender = ''a'', receiver = ''b''\<rparr>]\<rparr>
          \<lparr>nodes = [\<lparr>id_node = 1\<rparr>, \<lparr>id_node = 2\<rparr>], links = []\<rparr>) = Inr s \<and>
        mset (map task_id (schedule s)) = {#''a'', ''b''#})"
proof -
  let ?app = "\<lparr>tasks = [\<lparr>id_task = ''a'', wcet = 20, deadline_task = 10, node_id_task = None\<rparr>,
                     \<lparr>id_task = ''b'', wcet = 20, deadline_task = 20, node_id_task = None\<rparr>],
            messages = [\<lparr>sender = ''a'', receiver = ''b''\<rparr>]\<rparr>"
  let ?plat = "\<lparr>nodes = [\<lparr>id_node = 1\<rparr>, \<lparr>id_node = 2\<rparr>], links = []\<rparr>"
  have h1: "distinct (map id_task (tasks ?app))" by simp
  have h2: "sender ` set (messages ?app) \<subseteq> id_task ` set (tasks ?app)" by simp
  have h3: "receiver ` set (messages ?app) \<subseteq> id_task ` set (tasks ?app)" by simp
  have "acyclic ({} :: (string \<times> string) set)" by (simp add: acyclic_def)
  then have h4: "acyclic (dependency_edges (messages ?app))"
    by (simp add: dependency_edges_def)
  have h5: "nodes ?plat \<noteq> [] \<and> hints_known (tasks ?app) (id_node ` set (nodes ?plat))"
    by (simp add: hints_known_def)
  from acyclic_schedule_has_each_task_once[OF h1 h2 h3 h4, of ?plat] h5
  have "(\<exists>s. fst (ldf_single_node ?app) = Inr s \<and>
              mset (map task_id (schedule s)) = mset (map id_task (tasks ?app)))"
    and "(\<exists>s. fst (edf_single_node ?app) = Inr s \<and>
              mset (map task_id (schedule s)) = mset (map id_task (tasks ?app)))"
    and "(\<exists>s. fst (edf_multinode ?app ?plat) = Inr s \<and>
              mset (map task_id (schedule s)) = mset (map id_task (tasks ?app)))"
    by blast+
  with h1 h4 show ?thesis by simp
qed

section \<open>Cyclic inputs\<close>

lemma cycle_member_is_receiver:
  assumes "(x, x) \<in> (dependency_edges M)\<^sup>+"
  shows "x \<in> receiver ` set M"
proof -
  from assms have "x \<in> Range ((dependency_edges M)\<^sup>+)" by blast
  then have "x \<in> Range (dependency_edges M)" by (simp only: trancl_range)
  then show ?thesis by (auto simp: dependency_edges_def)
qed

lemma final_inv_no_cycle:
  assumes inv: "loop_inv M ts [] d' (map task_id sched)"
    and cyc: "(x, x) \<in> (dependency_edges M)\<^sup>+"
  shows "x \<notin> task_id ` set sched"
  using loop_inv_no_cycle[OF inv cyc] by simp

text \<open>
  Claim C1 says that every input whose dependency graph has a cycle makes each
  operation raise \<^verbatim>\<open>CyclicDependencyError\<close>. The module defines no such error and
  never checks for a cycle: when the ready queue runs empty the loop ends and the
  entries collected so far are returned. With two tasks that depend on each other no
  task is ever ready, and all three operations return the empty schedule.
\<close>

theorem cyclic_input_returns_empty_schedule:
  "(''a'', ''a'') \<in> (dependency_edges
       [\<lparr>sender = ''a'', receiver = ''b''\<rparr>, \<lparr>sender = ''b'', receiver = ''a''\<rparr>])\<^sup>+
   \<and> fst (ldf_single_node
        \<lparr>tasks = [\<lparr>id_task = ''a'', wcet = 20, deadline_task = 10, node_id_task = None\<rparr>,
                   \<lparr>id_task = ''b'', wcet = 20, deadline_task = 20, node_id_task = None\<rparr>],
          messages = [\<lparr>sender = ''a'', receiver = ''b''\<rparr>,
                      \<lparr>sender = ''b'', receiver = ''a''\<rparr>]\<rparr>)
       = Inr \<lparr>schedule = [], name = ''LDF Single Node''\<rparr>
   \<and> fst (edf_single_node
        \<lparr>tasks = [\<lparr>id_task = ''a'', wcet = 20, deadline_task = 10, node_id_task = None\<rparr>,
                   \<lparr>id_task = ''b'', wcet = 20, deadline_task = 20, node_id_task = None\<rparr>],
          messages = [\<lparr>sender = ''a'', receiver = ''b''\<rparr>,
                      \<lparr>sender = ''b'', receiver = ''a''\<rparr>]\<rparr>)
       = Inr \<lparr>schedule = [], name = ''EDF Single Node''\<rparr>
   \<and> fst (edf_multinode
        \<lparr>tasks = [\<lparr>id_task = ''a'', wcet = 20, deadline_task = 10, node_id_task = None\<rparr>,
                   \<lparr>id_task = ''b'', wcet = 20, deadline_task = 20, node_id_task = None\<rparr>],
          messages = [\<lparr>sender = ''a'', receiver = ''b''\<rparr>,
                      \<lparr>sender = ''b'', receiver = ''a''\<rparr>]\<rparr>
        \<lparr>nodes = [\<lparr>id_node = 1\<rparr>, \<lparr>id_node = 2\<rparr>], links = []\<rparr>)
       = Inr \<lparr>schedule = [], name = ''EDF Multi Node''\<rparr>"
proof -
  let ?E = "dependency_edges
       [\<lparr>sender = ''a'', receiver = ''b''\<rparr>, \<lparr>sender = ''b'', receiver = ''a''\<rparr>]"
  have "(''a'', ''b'') \<in> ?E" and "(''b'', ''a'') \<in> ?E"
    by (simp_all add: dependency_edges_def)
  then have "(''a'', ''a'') \<in> ?E\<^sup>+" by (rule trancl.intros(2)[OF r_into_trancl])
  then show ?thesis
    by (simp add: ldf_single_node_def edf_single_node_def edf_multinode_def in_degree_init_def
        node_time_init_def edf_key_def ldf_key_def)
qed

text \<open>
  Claim C1, as amended. For every input with unique task ids and known receivers whose
  dependency graph contains a cycle, \<^verbatim>\<open>ldf_single_node\<close> and \<^verbatim>\<open>edf_single_node\<close> raise
  nothing and return a partial schedule: a task that lies on a cycle is a task of the
  input and is absent from the schedule. Every schedule that \<^verbatim>\<open>edf_multinode\<close> returns
  is partial in the same way, and it returns one when there is a node and every truthy
  \<^verbatim>\<open>node_id\<close> of a task is the id of a node.
\<close>

theorem cyclic_task_is_left_out:
  assumes "distinct (map id_task (tasks app))"
    and "receiver ` set (messages app) \<subseteq> id_task ` set (tasks app)"
    and "(x, x) \<in> (dependency_edges (messages app))\<^sup>+"
  shows "x \<in> id_task ` set (tasks app)
       \<and> (\<exists>s. fst (ldf_single_node app) = Inr s \<and> x \<notin> task_id ` set (schedule s))
       \<and> (\<exists>s. fst (edf_single_node app) = Inr s \<and> x \<notin> task_id ` set (schedule s))
       \<and> (\<forall>s. fst (edf_multinode app plat) = Inr s \<longrightarrow> x \<notin> task_id ` set (schedule s))
       \<and> (nodes plat \<noteq> [] \<and> hints_known (tasks app) (id_node ` set (nodes plat)) \<longrightarrow>
              (\<exists>s. fst (edf_multinode app plat) = Inr s))"
proof (intro conjI allI impI)
  from cycle_member_is_receiver[OF assms(3)] assms(2)
  show "x \<in> id_task ` set (tasks app)" by blast
next
  from single_node_final_inv[OF assms(1,2), of ldf_key] obtain sched d' where
    run: "single_node_loop ldf_key (sort_key ldf_key (tasks app)) (graph_of (messages app))
            (ready_init ldf_key (messages app) (tasks app))
            (in_degree_of (messages app) (in_degree_init (tasks app))) 0 [] = Inr sched"
    and inv: "loop_inv (messages app) (sort_key ldf_key (tasks app)) [] d' (map task_id sched)"
    by blast
  from final_inv_no_cycle[OF inv assms(3)] run
  show "\<exists>s. fst (ldf_single_node app) = Inr s \<and> x \<notin> task_id ` set (schedule s)"
    by (simp add: ldf_single_node_known[OF assms(2)])
next
  from single_node_final_inv[OF assms(1,2), of edf_key] obtain sched d' where
    run: "single_node_loop edf_key (sort_key edf_key (tasks app)) (graph_of (messages app))
            (ready_init edf_key (messages app) (tasks app))
            (in_degree_of (messages app) (in_degree_init (tasks app))) 0 [] = Inr sched"
    and inv: "loop_inv (messages app) (sort_key edf_key (tasks app)) [] d' (map task_id sched)"
    by blast
  from final_inv_no_cycle[OF inv assms(3)] run
  show "\<exists>s. fst (edf_single_node app) = Inr s \<and> x \<notin> task_id ` set (schedule s)"
    by (simp add: edf_single_node_known[OF assms(2)])
next
  fix s assume "fst (edf_multinode app plat) = Inr s"
  then obtain sched where
    run: "multi_node_loop (sort_key edf_key (tasks app)) (links plat)
              (graph_of (messages app)) (ready_init edf_key (messages app) (tasks app))
              (in_degree_of (messages app) (in_degree_init (tasks app)))
              (node_time_init (nodes plat)) [] = Inr sched"
    and s: "schedule s = sched"
    by (auto simp: edf_multinode_known[OF assms(2)] split: sum.splits)
  from multi_node_final_inv[OF assms(1,2) run] obtain d' where
    inv: "loop_inv (messages app) (sort_key edf_key (tasks app)) [] d' (map task_id sched)"
    by blast
  from final_inv_no_cycle[OF inv assms(3)] s
  show "x \<notin> task_id ` set (schedule s)" by simp
next
  assume p: "nodes plat \<noteq> [] \<and> hints_known (tasks app) (id_node ` set (nodes plat))"
  have i: "loop_inv (messages app) (sort_key edf_key (tasks app))
           (ready_init edf_key (messages app) (tasks app))
           (in_degree_of (messages app) (in_degree_init (tasks app))) (map task_id [])"
    using loop_inv_ready_init[OF assms(1), of "messages app" edf_key] by simp
  have r: "receiver ` set (messages app) \<subseteq> id_task ` set (sort_key edf_key (tasks app))"
    using assms(2) by simp
  have ne: "node_time_init (nodes plat) \<noteq> []"
    using p node_time_init_keys[of "nodes plat"] by auto
  have h: "hints_known (sort_key edf_key (tasks app)) (fst ` set (node_time_init (nodes plat)))"
    using p by (simp add: hints_known_def node_time_init_keys)
  from multi_node_loop_succeeds[OF i r ne h, of "links plat"]
  show "\<exists>s. fst (edf_multinode app plat) = Inr s"
    by (auto simp: edf_multinode_known[OF assms(2)])
qed

theorem cyclic_task_is_left_out_witness:
  "distinct (map id_task
      [\<lparr>id_task = ''a'', wcet = 20, deadline_task = 10, node_id_task = None\<rparr>,
       \<lparr>id_task = ''b'', wcet = 20, deadline_task = 20, node_id_task = None\<rparr>,
       \<lparr>id_task = ''c'', wcet = 20, deadline_task = 30, node_id_task = None\<rparr>])
   \<and> (''a'', ''a'') \<in> (dependency_edges
       [\<lparr>sender = ''a'', receiver = ''b''\<rparr>, \<lparr>sender = ''b'', receiver = ''a''\<rparr>])\<^sup>+
   \<and> (\<exists>s. fst (edf_single_node
          \<lparr>tasks = [\<lparr>id_task = ''a'', wcet = 20, deadline_task = 10, node_id_task = None\<rparr>,
                     \<lparr>id_task = ''b'', wcet = 20, deadline_task = 20, node_id_task = None\<rparr>,
                     \<lparr>id_task = ''c'', wcet = 20, deadline_task = 30, node_id_task = None\<rparr>],
            messages = [\<lparr>sender = ''a'', receiver = ''b''\<rparr>,
                        \<lparr>sender = ''b'', receiver = ''a''\<rparr>]\<rparr>) = Inr s \<and>
        ''a'' \<notin> task_id ` set (schedule s))
   \<and> (\<exists>s. fst (ldf_single_node
          \<lparr>tasks = [\<lparr>id_task = ''a'', wcet = 20, deadline_task = 10, node_id_task = None\<rparr>,
                     \<lparr>id_task = ''b'', wcet = 20, deadline_task = 20, node_id_task = None\<rparr>,
                     \<lparr>id_task = ''c'', wcet = 20, deadline_task = 30, node_id_task = None\<rparr>],
            messages = [\<lparr>sender = ''a'', receiver = ''b''\<rparr>,
                        \<lparr>sender = ''b'', receiver = ''a''\<rparr>]\<rparr>) = Inr s \<and>
        ''a'' \<notin> task_id ` set (schedule s))
   \<and> (\<exists>s. fst (edf_multinode
          \<lparr>tasks = [\<lparr>id_task = ''a'', wcet = 20, deadline_task = 10, node_id_task = None\<rparr>,
                     \<lparr>id_task = ''b'', wcet = 20, deadline_task = 20, node_id_task = None\<rparr>,
                     \<lparr>id_task = ''c'', wcet = 20, deadline_task = 30, node_id_task = None\<rparr>],
            messages = [\<lparr>sender = ''a'', receiver = ''b''\<rparr>,
                        \<lparr>sender = ''b'', receiver = ''a''\<rparr>]\<rparr>
          \<lparr>nodes = [\<lparr>id_node = 1\<rparr>], links = []\<rparr>) = Inr s \<and>
        ''a'' \<notin> task_id ` set (schedule s))"
proof -
  let ?app = "\<lparr>tasks = [\<lparr>id_task = ''a'', wcet = 20, deadline_task = 10, node_id_task = None\<rparr>,
                     \<lparr>id_task = ''b'', wcet = 20, deadline_task = 20, node_id_task = None\<rparr>,
                     \<lparr>id_task = ''c'', wcet = 20, deadline_task = 30, node_id_task = None\<rparr>],
            messages = [\<lparr>sender = ''a'', receiver = ''b''\<rparr>,
                        \<lparr>sender = ''b'', receiver = ''a''\<rparr>]\<rparr>"
  let ?plat = "\<lparr>nodes = [\<lparr>id_node = 1\<rparr>], links = []\<rparr>"
  have h1: "distinct (map id_task (tasks ?app))" by simp
  have h2: "receiver ` set (messages ?app) \<subseteq> id_task ` set (tasks ?app)" by simp
  have "(''a'', ''b'') \<in> dependency_edges (messages ?app)"
    and "(''b'', ''a'') \<in> dependency_edges (messages ?app)"
    by (simp_all add: dependency_edges_def)
  then have h3: "(''a'', ''a'') \<in> (dependency_edges (messages ?app))\<^sup>+"
    by (rule trancl.intros(2)[OF r_into_trancl])
  have h4: "nodes ?plat \<noteq> [] \<and> hints_known (tasks ?app) (id_node ` set (nodes ?plat))"
    by (simp add: hints_known_def)
  from cyclic_task_is_left_out[OF h1 h2 h3, of ?plat] h4
  have "\<exists>s. fst (ldf_single_node ?app) = Inr s \<and> ''a'' \<notin> task_id ` set (schedule s)"
    and "\<exists>s. fst (edf_single_node ?app) = Inr s \<and> ''a'' \<notin> task_id ` set (schedule s)"
    and "\<exists>s. fst (edf_multinode ?app ?plat) = Inr s \<and> ''a'' \<notin> task_id ` set (schedule s)"
    by blast+
  with h1 h3 show ?thesis by simp
qed

section \<open>Messages that name no task\<close>

text \<open>
  Claim C9 says that a message whose sender or receiver is no task id makes the
  operation fail with \<^verbatim>\<open>UnknownTaskReferenceError\<close>, in both cases. The module defines
  no such error and validates nothing. An unknown sender only creates a key of the
  \<^verbatim>\<open>defaultdict\<close>: with the single task a and the message from x to a, all three
  operations return normally, with an empty schedule.
\<close>

theorem unknown_sender_is_accepted:
  "fst (ldf_single_node
      \<lparr>tasks = [\<lparr>id_task = ''a'', wcet = 20, deadline_task = 10, node_id_task = None\<rparr>],
        messages = [\<lparr>sender = ''x'', receiver = ''a''\<rparr>]\<rparr>)
     = Inr \<lparr>schedule = [], name = ''LDF Single Node''\<rparr>
   \<and> fst (edf_single_node
      \<lparr>tasks = [\<lparr>id_task = ''a'', wcet = 20, deadline_task = 10, node_id_task = None\<rparr>],
        messages = [\<lparr>sender = ''x'', receiver = ''a''\<rparr>]\<rparr>)
     = Inr \<lparr>schedule = [], name = ''EDF Single Node''\<rparr>
   \<and> fst (edf_multinode
      \<lparr>tasks = [\<lparr>id_task = ''a'', wcet = 20, deadline_task = 10, node_id_task = None\<rparr>],
        messages = [\<lparr>sender = ''x'', receiver = ''a''\<rparr>]\<rparr>
      \<lparr>nodes = [\<lparr>id_node = 1\<rparr>], links = []\<rparr>)
     = Inr \<lparr>schedule = [], name = ''EDF Multi Node''\<rparr>"
  by (simp add: ldf_single_node_def edf_single_node_def edf_multinode_def in_degree_init_def
      node_time_init_def edf_key_def ldf_key_def)

text \<open>
  Claim C9, as amended. A message whose receiver id is not the id of any task makes
  \<^verbatim>\<open>ldf_single_node\<close>, \<^verbatim>\<open>edf_single_node\<close> and \<^verbatim>\<open>edf_multinode\<close> fail with Python's
  \<^verbatim>\<open>KeyError\<close> (from \<^verbatim>\<open>in_degree[receiver] += 1\<close>), before the task list is sorted. When
  every receiver is a task id, the two single-node operations return a schedule,
  whatever the senders are: an unknown sender is not an error.
\<close>

theorem unknown_receiver_raises_KeyError:
  "((\<exists>m \<in> set (messages app). receiver m \<notin> id_task ` set (tasks app)) \<longrightarrow>
      ldf_single_node app = (Inl KeyError, app) \<and>
      edf_single_node app = (Inl KeyError, app) \<and>
      edf_multinode app plat = (Inl KeyError, app, plat))
   \<and> ((\<forall>m \<in> set (messages app). receiver m \<in> id_task ` set (tasks app)) \<longrightarrow>
      (\<exists>s. fst (ldf_single_node app) = Inr s) \<and>
      (\<exists>s. fst (edf_single_node app) = Inr s))"
proof (intro conjI impI)
  assume "\<exists>m \<in> set (messages app). receiver m \<notin> id_task ` set (tasks app)"
  then have n: "\<not> receiver ` set (messages app) \<subseteq> id_task ` set (tasks app)" by blast
  show "ldf_single_node app = (Inl KeyError, app)" by (rule ldf_single_node_unknown[OF n])
  show "edf_single_node app = (Inl KeyError, app)" by (rule edf_single_node_unknown[OF n])
  show "edf_multinode app plat = (Inl KeyError, app, plat)"
    by (rule edf_multinode_unknown[OF n])
next
  assume "\<forall>m \<in> set (messages app). receiver m \<in> id_task ` set (tasks app)"
  then have k: "receiver ` set (messages app) \<subseteq> id_task ` set (tasks app)" by blast
  from single_node_run_succeeds[OF k, of ldf_key]
  show "\<exists>s. fst (ldf_single_node app) = Inr s"
    by (auto simp: ldf_single_node_known[OF k])
  from single_node_run_succeeds[OF k, of edf_key]
  show "\<exists>s. fst (edf_single_node app) = Inr s"
    by (auto simp: edf_single_node_known[OF k])
qed

theorem unknown_receiver_raises_KeyError_witness:
  "receiver \<lparr>sender = ''a'', receiver = ''x''\<rparr> \<notin> id_task ` set
         [\<lparr>id_task = ''a'', wcet = 20, deadline_task = 10, node_id_task = None\<rparr>]
   \<and> fst (edf_multinode
        \<lparr>tasks = [\<lparr>id_task = ''a'', wcet = 20, deadline_task = 10, node_id_task = None\<rparr>],
          messages = [\<lparr>sender = ''a'', receiver = ''x''\<rparr>]\<rparr>
        \<lparr>nodes = [\<lparr>id_node = 1\<rparr>], links = []\<rparr>) = Inl KeyError
   \<and> fst (ldf_single_node
        \<lparr>tasks = [\<lparr>id_task = ''a'', wcet = 20, deadline_task = 10, node_id_task = None\<rparr>],
          messages = [\<lparr>sender = ''a'', receiver = ''x''\<rparr>]\<rparr>) = Inl KeyError
   \<and> fst (edf_single_node
        \<lparr>tasks = [\<lparr>id_task = ''a'', wcet = 20, deadline_task = 10, node_id_task = None\<rparr>],
          messages = [\<lparr>sender = ''a'', receiver = ''x''\<rparr>]\<rparr>) = Inl KeyError
   \<and> receiver \<lparr>sender = ''x'', receiver = ''a''\<rparr> \<in> id_task ` set
         [\<lparr>id_task = ''a'', wcet = 20, deadline_task = 10, node_id_task = None\<rparr>]
   \<and> (\<exists>s. fst (edf_single_node
        \<lparr>tasks = [\<lparr>id_task = ''a'', wcet = 20, deadline_task = 10, node_id_task = None\<rparr>],
          messages = [\<lparr>sender = ''x'', receiver = ''a''\<rparr>]\<rparr>) = Inr s)
   \<and> (\<exists>s. fst (ldf_single_node
        \<lparr>tasks = [\<lparr>id_task = ''a'', wcet = 20, deadline_task = 10, node_id_task = None\<rparr>],
          messages = [\<lparr>sender = ''x'', receiver = ''a''\<rparr>]\<rparr>) = Inr s)"
proof -
  let ?t = "[\<lparr>id_task = ''a'', wcet = 20, deadline_task = 10, node_id_task = None\<rparr>]"
  let ?bad = "\<lparr>tasks = ?t, messages = [\<lparr>sender = ''a'', receiver = ''x''\<rparr>]\<rparr>"
  let ?ok = "\<lparr>tasks = ?t, messages = [\<lparr>sender = ''x'', receiver = ''a''\<rparr>]\<rparr>"
  let ?plat = "\<lparr>nodes = [\<lparr>id_node = 1\<rparr>], links = []\<rparr>"
  have h1: "\<exists>m \<in> set (messages ?bad). receiver m \<notin> id_task ` set (tasks ?bad)" by simp
  have h2: "\<forall>m \<in> set (messages ?ok). receiver m \<in> id_task ` set (tasks ?ok)" by simp
  from unknown_receiver_raises_KeyError[of ?bad ?plat] h1
  have b: "ldf_single_node ?bad = (Inl KeyError, ?bad)"
    "edf_single_node ?bad = (Inl KeyError, ?bad)"
    "edf_multinode ?bad ?plat = (Inl KeyError, ?bad, ?plat)"
    by blast+
  from unknown_receiver_raises_KeyError[of ?ok ?plat] h2
  have g: "\<exists>s. fst (ldf_single_node ?ok) = Inr s" "\<exists>s. fst (edf_single_node ?ok) = Inr s"
    by blast+
  from b g show ?thesis by simp
qed

section \<open>What a call leaves behind\<close>

lemma sort_key_idem: "sort_key k (sort_key k xs) = sort_key k xs"
  by (rule sort_key_id_if_sorted) (rule sorted_sort_key)

lemma in_degree_init_sort: "in_degree_init (sort_key k ts) = in_degree_init ts"
  by (rule ext) (simp add: in_degree_init_apply)

lemma ready_init_sort: "ready_init k M (sort_key k ts) = ready_init k M ts"
  by (simp add: ready_init_def in_degree_init_sort sort_key_idem)

lemma known_after_sort:
  assumes "receiver ` set (messages app) \<subseteq> id_task ` set (tasks app)"
  shows "receiver ` set (messages (app\<lparr>tasks := sort_key k (tasks app)\<rparr>))
           \<subseteq> id_task ` set (tasks (app\<lparr>tasks := sort_key k (tasks app)\<rparr>))"
  using assms by simp

text \<open>
  Claim C7 says that no scheduling operation mutates the caller's lists. Each of the
  three operations calls \<^verbatim>\<open>tasks.sort(...)\<close> on the list it was given: after
  \<^verbatim>\<open>edf_single_node\<close> on the tasks a (deadline 2) and b (deadline 1), the caller's list
  holds b before a.
\<close>

theorem edf_single_node_reorders_tasks:
  "tasks (snd (edf_single_node
      \<lparr>tasks = [\<lparr>id_task = ''a'', wcet = 20, deadline_task = 2, node_id_task = None\<rparr>,
                 \<lparr>id_task = ''b'', wcet = 20, deadline_task = 1, node_id_task = None\<rparr>],
        messages = []\<rparr>))
   = [\<lparr>id_task = ''b'', wcet = 20, deadline_task = 1, node_id_task = None\<rparr>,
      \<lparr>id_task = ''a'', wcet = 20, deadline_task = 2, node_id_task = None\<rparr>]"
  by (simp add: edf_single_node_def in_degree_init_def edf_key_def)

text \<open>
  Claim C7, as amended. After a call to \<^verbatim>\<open>ldf_single_node\<close>, \<^verbatim>\<open>edf_single_node\<close> or
  \<^verbatim>\<open>edf_multinode\<close> the messages list, the nodes list and the links list are unchanged
  and no element has gained a field; the tasks list holds the same elements, reordered
  in place by a stable sort on the deadline (descending for LDF, ascending for EDF).
  When some receiver is no task id the call raises before the sort and the tasks list
  is unchanged too.
\<close>

theorem only_the_task_list_is_reordered:
  "snd (ldf_single_node app) =
     (if receiver ` set (messages app) \<subseteq> id_task ` set (tasks app)
      then app\<lparr>tasks := sort_key ldf_key (tasks app)\<rparr> else app)
   \<and> snd (edf_single_node app) =
     (if receiver ` set (messages app) \<subseteq> id_task ` set (tasks app)
      then app\<lparr>tasks := sort_key edf_key (tasks app)\<rparr> else app)
   \<and> snd (edf_multinode app plat) =
     (if receiver ` set (messages app) \<subseteq> id_task ` set (tasks app)
      then app\<lparr>tasks := sort_key edf_key (tasks app)\<rparr> else app, plat)
   \<and> messages (snd (ldf_single_node app)) = messages app
   \<and> messages (snd (edf_single_node app)) = messages app
   \<and> messages (fst (snd (edf_multinode app plat))) = messages app
   \<and> mset (tasks (snd (ldf_single_node app))) = mset (tasks app)
   \<and> mset (tasks (snd (edf_single_node app))) = mset (tasks app)
   \<and> mset (tasks (fst (snd (edf_multinode app plat)))) = mset (tasks app)"
proof (cases "receiver ` set (messages app) \<subseteq> id_task ` set (tasks app)")
  case True
  show ?thesis
    by (simp add: ldf_single_node_known[OF True] edf_single_node_known[OF True]
        edf_multinode_known[OF True] True)
next
  case False
  show ?thesis
    by (simp add: ldf_single_node_unknown[OF False] edf_single_node_unknown[OF False]
        edf_multinode_unknown[OF False] False)
qed

theorem only_the_task_list_is_reordered_witness:
  "snd (edf_multinode
      \<lparr>tasks = [\<lparr>id_task = ''a'', wcet = 20, deadline_task = 2, node_id_task = None\<rparr>,
                 \<lparr>id_task = ''b'', wcet = 20, deadline_task = 1, node_id_task = None\<rparr>],
        messages = [\<lparr>sender = ''a'', receiver = ''b''\<rparr>]\<rparr>
      \<lparr>nodes = [\<lparr>id_node = 1\<rparr>], links = []\<rparr>)
   = (\<lparr>tasks = [\<lparr>id_task = ''b'', wcet = 20, deadline_task = 1, node_id_task = None\<rparr>,
                  \<lparr>id_task = ''a'', wcet = 20, deadline_task = 2, node_id_task = None\<rparr>],
         messages = [\<lparr>sender = ''a'', receiver = ''b''\<rparr>]\<rparr>,
      \<lparr>nodes = [\<lparr>id_node = 1\<rparr>], links = []\<rparr>)
   \<and> snd (ldf_single_node
      \<lparr>tasks = [\<lparr>id_task = ''b'', wcet = 20, deadline_task = 1, node_id_task = None\<rparr>,
                 \<lparr>id_task = ''a'', wcet = 20, deadline_task = 2, node_id_task = None\<rparr>],
        messages = [\<lparr>sender = ''a'', receiver = ''x''\<rparr>]\<rparr>)
   = \<lparr>tasks = [\<lparr>id_task = ''b'', wcet = 20, deadline_task = 1, node_id_task = None\<rparr>,
                 \<lparr>id_task = ''a'', wcet = 20, deadline_task = 2, node_id_task = None\<rparr>],
        messages = [\<lparr>sender = ''a'', receiver = ''x''\<rparr>]\<rparr>"
  using only_the_task_list_is_reordered
    [of "\<lparr>tasks = [\<lparr>id_task = ''a'', wcet = 20, deadline_task = 2, node_id_task = None\<rparr>,
                 \<lparr>id_task = ''b'', wcet = 20, deadline_task = 1, node_id_task = None\<rparr>],
        messages = [\<lparr>sender = ''a'', receiver = ''b''\<rparr>]\<rparr>"
        "\<lparr>nodes = [\<lparr>id_node = 1\<rparr>], links = []\<rparr>"]
    only_the_task_list_is_reordered
    [of "\<lparr>tasks = [\<lparr>id_task = ''b'', wcet = 20, deadline_task = 1, node_id_task = None\<rparr>,
                 \<lparr>id_task = ''a'', wcet = 20, deadline_task = 2, node_id_task = None\<rparr>],
        messages = [\<lparr>sender = ''a'', receiver = ''x''\<rparr>]\<rparr>"
        "\<lparr>nodes = [], links = []\<rparr>"]
  by (simp add: edf_key_def ldf_key_def)

section \<open>Determinism\<close>

text \<open>
  Claim C8. Every scheduling operation is deterministic: two calls with identical
  application data (and platform data) return identical schedules. The operations read
  nothing but their arguments, so each is a function of them and equal arguments give
  equal results. The only thing a call changes is the order of the caller's task
  list; a second call on the very same objects, as the first call left them, still
  returns the same result, name and entries alike.
\<close>

theorem repeated_call_returns_same_schedule:
  "fst (ldf_single_node (snd (ldf_single_node app))) = fst (ldf_single_node app)
   \<and> fst (edf_single_node (snd (edf_single_node app))) = fst (edf_single_node app)
   \<and> fst (edf_multinode (fst (snd (edf_multinode app plat)))
            (snd (snd (edf_multinode app plat)))) = fst (edf_multinode app plat)"
proof (cases "receiver ` set (messages app) \<subseteq> id_task ` set (tasks app)")
  case True
  show ?thesis
    by (simp add: ldf_single_node_known[OF True] edf_single_node_known[OF True]
        edf_multinode_known[OF True]
        ldf_single_node_known[OF known_after_sort[OF True]]
        edf_single_node_known[OF known_after_sort[OF True]]
        edf_multinode_known[OF known_after_sort[OF True]]
        sort_key_idem ready_init_sort in_degree_init_sort)
next
  case False
  show ?thesis
    by (simp add: ldf_single_node_unknown[OF False] edf_single_node_unknown[OF False]
        edf_multinode_unknown[OF False])
qed

theorem repeated_call_returns_same_schedule_witness:
  "fst (edf_single_node (snd (edf_single_node
      \<lparr>tasks = [\<lparr>id_task = ''a'', wcet = 20, deadline_task = 2, node_id_task = None\<rparr>,
                 \<lparr>id_task = ''b'', wcet = 20, deadline_task = 1, node_id_task = None\<rparr>],
        messages = []\<rparr>)))
   = Inr \<lparr>schedule =
       [\<lparr>task_id = ''b'', node_id = 1, start_time = 0, end_time = 20, deadline = 1\<rparr>,
        \<lparr>task_id = ''a'', node_id = 1, start_time = 20, end_time = 40, deadline = 2\<rparr>],
       name = ''EDF Single Node''\<rparr>"
proof -
  let ?app = "\<lparr>tasks = [\<lparr>id_task = ''a'', wcet = 20, deadline_task = 2, node_id_task = None\<rparr>,
                 \<lparr>id_task = ''b'', wcet = 20, deadline_task = 1, node_id_task = None\<rparr>],
        messages = []\<rparr>"
  have "fst (edf_single_node ?app) = Inr \<lparr>schedule =
       [\<lparr>task_id = ''b'', node_id = 1, start_time = 0, end_time = 20, deadline = 1\<rparr>,
        \<lparr>task_id = ''a'', node_id = 1, start_time = 20, end_time = 40, deadline = 2\<rparr>],
       name = ''EDF Single Node''\<rparr>"
    by (simp add: edf_single_node_def in_degree_init_def edf_key_def)
  with repeated_call_returns_same_schedule[of ?app] show ?thesis by simp
qed

section \<open>Single-node schedules are contiguous\<close>

text \<open>
  The single-node loop starts each entry at the current clock and moves the clock to
  the entry's end: \<open>contiguous\<close> says that a list of entries is such a chain from
  a given clock value, \<open>clock_after\<close> is the clock it ends with.
\<close>

fun contiguous :: "int \<Rightarrow> entry list \<Rightarrow> bool" where
  "contiguous c [] = True"
| "contiguous c (e # es) = (start_time e = c \<and> contiguous (end_time e) es)"

fun clock_after :: "int \<Rightarrow> entry list \<Rightarrow> int" where
  "clock_after c [] = c"
| "clock_after c (e # es) = clock_after (end_time e) es"

definition entry_ok :: "task list \<Rightarrow> entry \<Rightarrow> bool" where
  "entry_ok ts e \<longleftrightarrow>
     node_id e = 1 \<and>
     (\<exists>t \<in> set ts. task_id e = id_task t \<and> end_time e = start_time e + wcet t \<and>
        deadline e = deadline_task t)"

lemma contiguous_append:
  "contiguous c (es @ [e]) = (contiguous c es \<and> start_time e = clock_after c es)"
  by (induction es arbitrary: c) auto

lemma clock_after_append: "clock_after c (es @ [e]) = end_time e"
  by (induction es arbitrary: c) auto

lemma contiguous_nth:
  "contiguous c es \<Longrightarrow> Suc i < length es \<Longrightarrow> start_time (es ! Suc i) = end_time (es ! i)"
proof (induction es arbitrary: c i)
  case Nil
  then show ?case by simp
next
  case (Cons e es)
  show ?case
  proof (cases i)
    case 0
    with Cons.prems show ?thesis by (cases es) auto
  next
    case (Suc j)
    with Cons.prems Cons.IH[of "end_time e" j] show ?thesis by simp
  qed
qed

lemma contiguous_sorted:
  assumes "contiguous c es" and "\<forall>e \<in> set es. start_time e \<le> end_time e"
  shows "sorted (map start_time es) \<and> (\<forall>e \<in> set es. c \<le> start_time e)"
  using assms
proof (induction es arbitrary: c)
  case Nil
  then show ?case by simp
next
  case (Cons e es)
  from Cons.prems have c: "contiguous (end_time e) es"
    and m: "\<forall>x \<in> set es. start_time x \<le> end_time x"
    and s: "start_time e = c" and le: "start_time e \<le> end_time e"
    by simp_all
  from Cons.IH[OF c m] have srt: "sorted (map start_time es)"
    and lb: "\<forall>x \<in> set es. end_time e \<le> start_time x" by simp_all
  from lb le have "\<forall>x \<in> set es. start_time e \<le> start_time x" by auto
  with srt s show ?case by simp
qed

lemma single_node_loop_Cons_Inr:
  assumes "single_node_loop key ts g (t # q) d now sched = Inr s"
  obtains d' q' where "release_dependents ts (g (id_task t)) d q = Inr (d', q')"
    and "single_node_loop key ts g (sort_key key q') d' (now + wcet t)
           (sched @ [\<lparr>task_id = id_task t, node_id = 1, start_time = now,
                       end_time = now + wcet t, deadline = deadline_task t\<rparr>]) = Inr s"
  using assms by (auto simp: Let_def split: sum.splits prod.splits)

lemma release_dependents_subset:
  assumes "release_dependents ts deps d q = Inr (d', q')" and "set q \<subseteq> set ts"
  shows "set q' \<subseteq> set ts"
proof -
  from release_dependents_result[OF assms(1)] obtain new where
    "q' = q @ new" and "set new \<subseteq> set ts" by blast
  with assms(2) show ?thesis by simp
qed

lemma single_node_loop_timing:
  assumes "single_node_loop key ts g q d now sched = Inr s"
    and "set q \<subseteq> set ts" and "contiguous 0 sched" and "clock_after 0 sched = now"
    and "\<forall>e \<in> set sched. entry_ok ts e"
  shows "contiguous 0 s \<and> (\<forall>e \<in> set s. entry_ok ts e)"
  using assms
proof (induction key ts g q d now sched rule: single_node_loop.induct)
  case (1 key ts graph in_degree current_time sched)
  then show ?case by simp
next
  case (2 key ts graph t ready_queue in_degree current_time sched)
  let ?e = "\<lparr>task_id = id_task t, node_id = 1, start_time = current_time,
             end_time = current_time + wcet t, deadline = deadline_task t\<rparr>"
  from "2.prems"(1) obtain d' q' where
    rel: "release_dependents ts (graph (id_task t)) in_degree ready_queue = Inr (d', q')"
    and rec: "single_node_loop key ts graph (sort_key key q') d' (current_time + wcet t)
           (sched @ [?e]) = Inr s"
    by (rule single_node_loop_Cons_Inr)
  from "2.prems"(2) have tin: "t \<in> set ts" and qs: "set ready_queue \<subseteq> set ts" by simp_all
  from release_dependents_subset[OF rel qs] have q': "set (sort_key key q') \<subseteq> set ts"
    by simp
  have c: "contiguous 0 (sched @ [?e])"
    using "2.prems"(3,4) by (simp add: contiguous_append)
  have k: "clock_after 0 (sched @ [?e]) = current_time + wcet t"
    by (simp add: clock_after_append)
  have "entry_ok ts ?e" using tin by (auto simp: entry_ok_def)
  with "2.prems"(5) have ok: "\<forall>e \<in> set (sched @ [?e]). entry_ok ts e" by simp
  from "2.IH"[OF refl refl refl rel refl rec q' c k ok] show ?case .
qed

lemma single_node_run_timing:
  assumes run: "single_node_loop key (sort_key key ts0) g (ready_init key M ts0) d 0 [] = Inr s"
    and wcet: "\<forall>t \<in> set ts0. 0 \<le> wcet t"
  shows "sort_key start_time s = s
       \<and> (\<forall>i. Suc i < length s \<longrightarrow> start_time (s ! Suc i) = end_time (s ! i))
       \<and> (\<forall>e \<in> set s. \<exists>t \<in> set ts0.
             task_id e = id_task t \<and> end_time e = start_time e + wcet t)"
proof -
  have q: "set (ready_init key M ts0) \<subseteq> set (sort_key key ts0)"
    by (auto simp: ready_init_def)
  from single_node_loop_timing[OF run q] have c: "contiguous 0 s"
    and ok: "\<forall>e \<in> set s. entry_ok (sort_key key ts0) e" by simp_all
  from ok have ex: "\<forall>e \<in> set s. \<exists>t \<in> set ts0.
             task_id e = id_task t \<and> end_time e = start_time e + wcet t"
    unfolding entry_ok_def by auto
  with wcet have "\<forall>e \<in> set s. start_time e \<le> end_time e" by fastforce
  from contiguous_sorted[OF c this] have "sorted (map start_time s)" by simp
  then have "sort_key start_time s = s" by (rule sort_key_id_if_sorted)
  moreover from c have "\<forall>i. Suc i < length s \<longrightarrow> start_time (s ! Suc i) = end_time (s ! i)"
    using contiguous_nth by blast
  ultimately show ?thesis using ex by blast
qed

text \<open>
  Claim C6. The schedules returned by \<^verbatim>\<open>ldf_single_node\<close> and \<^verbatim>\<open>edf_single_node\<close> are
  contiguous: after sorting the entries by start time, each entry starts where the
  one before it ends, and every entry ends at its start plus the execution time of its
  task. Execution times are not negative (the data model has them positive). This holds
  for every schedule the two operations return, for acyclic inputs in particular.
\<close>

theorem single_node_schedule_is_contiguous:
  assumes "\<forall>t \<in> set (tasks app). 0 \<le> wcet t"
  shows "(\<forall>s. fst (ldf_single_node app) = Inr s \<longrightarrow>
            (\<forall>i. Suc i < length (schedule s) \<longrightarrow>
               start_time (sort_key start_time (schedule s) ! Suc i)
                 = end_time (sort_key start_time (schedule s) ! i)) \<and>
            (\<forall>e \<in> set (schedule s). \<exists>t \<in> set (tasks app).
               task_id e = id_task t \<and> end_time e = start_time e + wcet t))
       \<and> (\<forall>s. fst (edf_single_node app) = Inr s \<longrightarrow>
            (\<forall>i. Suc i < length (schedule s) \<longrightarrow>
               start_time (sort_key start_time (schedule s) ! Suc i)
                 = end_time (sort_key start_time (schedule s) ! i)) \<and>
            (\<forall>e \<in> set (schedule s). \<exists>t \<in> set (tasks app).
               task_id e = id_task t \<and> end_time e = start_time e + wcet t))"
proof -
  have L: "(\<forall>i. Suc i < length (schedule s) \<longrightarrow>
               start_time (sort_key start_time (schedule s) ! Suc i)
                 = end_time (sort_key start_time (schedule s) ! i)) \<and>
            (\<forall>e \<in> set (schedule s). \<exists>t \<in> set (tasks app).
               task_id e = id_task t \<and> end_time e = start_time e + wcet t)"
    if r: "fst (ldf_single_node app) = Inr s" for s
  proof -
    have known: "receiver ` set (messages app) \<subseteq> id_task ` set (tasks app)"
    proof (rule ccontr)
      assume "\<not> receiver ` set (messages app) \<subseteq> id_task ` set (tasks app)"
      from ldf_single_node_unknown[OF this] r show False by simp
    qed
    from r obtain sched where
      run: "single_node_loop ldf_key (sort_key ldf_key (tasks app)) (graph_of (messages app))
              (ready_init ldf_key (messages app) (tasks app))
              (in_degree_of (messages app) (in_degree_init (tasks app))) 0 [] = Inr sched"
      and s: "schedule s = sched"
      by (auto simp: ldf_single_node_known[OF known] split: sum.splits)
    from single_node_run_timing[OF run assms] s show ?thesis by simp
  qed
  have E: "(\<forall>i. Suc i < length (schedule s) \<longrightarrow>
               start_time (sort_key start_time (schedule s) ! Suc i)
                 = end_time (sort_key start_time (schedule s) ! i)) \<and>
            (\<forall>e \<in> set (schedule s). \<exists>t \<in> set (tasks app).
               task_id e = id_task t \<and> end_time e = start_time e + wcet t)"
    if r: "fst (edf_single_node app) = Inr s" for s
  proof -
    have known: "receiver ` set (messages app) \<subseteq> id_task ` set (tasks app)"
    proof (rule ccontr)
      assume "\<not> receiver ` set (messages app) \<subseteq> id_task ` set (tasks app)"
      from edf_single_node_unknown[OF this] r show False by simp
    qed
    from r obtain sched where
      run: "single_node_loop edf_key (sort_key edf_key (tasks app)) (graph_of (messages app))
              (ready_init edf_key (messages app) (tasks app))
              (in_degree_of (messages app) (in_degree_init (tasks app))) 0 [] = Inr sched"
      and s: "schedule s = sched"
      by (auto simp: edf_single_node_known[OF known] split: sum.splits)
    from single_node_run_timing[OF run assms] s show ?thesis by simp
  qed
  from L E show ?thesis by blast
qed

theorem single_node_schedule_is_contiguous_witness:
  "list_all (\<lambda>t. 0 \<le> wcet t)
      [\<lparr>id_task = ''a'', wcet = 20, deadline_task = 10, node_id_task = None\<rparr>,
       \<lparr>id_task = ''b'', wcet = 30, deadline_task = 20, node_id_task = None\<rparr>]
   \<and> fst (edf_single_node
        \<lparr>tasks = [\<lparr>id_task = ''a'', wcet = 20, deadline_task = 10, node_id_task = None\<rparr>,
                   \<lparr>id_task = ''b'', wcet = 30, deadline_task = 20, node_id_task = None\<rparr>],
          messages = [\<lparr>sender = ''a'', receiver = ''b''\<rparr>]\<rparr>)
     = Inr \<lparr>schedule =
         [\<lparr>task_id = ''a'', node_id = 1, start_time = 0, end_time = 20, deadline = 10\<rparr>,
          \<lparr>task_id = ''b'', node_id = 1, start_time = 20, end_time = 50, deadline = 20\<rparr>],
         name = ''EDF Single Node''\<rparr>
   \<and> start_time (sort_key start_time
         [\<lparr>task_id = ''a'', node_id = 1, start_time = 0, end_time = 20, deadline = 10\<rparr>,
          \<lparr>task_id = ''b'', node_id = 1, start_time = 20, end_time = 50, deadline = 20\<rparr>]
           ! Suc 0)
      = end_time (sort_key start_time
         [\<lparr>task_id = ''a'', node_id = 1, start_time = 0, end_time = 20, deadline = 10\<rparr>,
          \<lparr>task_id = ''b'', node_id = 1, start_time = 20, end_time = 50, deadline = 20\<rparr>]
           ! 0)
   \<and> (\<exists>t \<in> set [\<lparr>id_task = ''a'', wcet = 20, deadline_task = 10, node_id_task = None\<rparr>,
                   \<lparr>id_task = ''b'', wcet = 30, deadline_task = 20, node_id_task = None\<rparr>].
        ''b'' = id_task t \<and> (50 :: int) = 20 + wcet t)"
proof -
  let ?app = "\<lparr>tasks = [\<lparr>id_task = ''a'', wcet = 20, deadline_task = 10, node_id_task = None\<rparr>,
                   \<lparr>id_task = ''b'', wcet = 30, deadline_task = 20, node_id_task = None\<rparr>],
          messages = [\<lparr>sender = ''a'', receiver = ''b''\<rparr>]\<rparr>"
  let ?eb = "\<lparr>task_id = ''b'', node_id = 1, start_time = 20, end_time = 50, deadline = 20\<rparr>"
  let ?s = "\<lparr>schedule =
         [\<lparr>task_id = ''a'', node_id = 1, start_time = 0, end_time = 20, deadline = 10\<rparr>, ?eb],
         name = ''EDF Single Node''\<rparr>"
  have h: "\<forall>t \<in> set (tasks ?app). 0 \<le> wcet t" by simp
  have run: "fst (edf_single_node ?app) = Inr ?s"
    by (simp add: edf_single_node_def in_degree_init_def edf_key_def)
  from single_node_schedule_is_contiguous[OF h] run
  have all: "(\<forall>i. Suc i < length (schedule ?s) \<longrightarrow>
               start_time (sort_key start_time (schedule ?s) ! Suc i)
                 = end_time (sort_key start_time (schedule ?s) ! i)) \<and>
            (\<forall>e \<in> set (schedule ?s). \<exists>t \<in> set (tasks ?app).
               task_id e = id_task t \<and> end_time e = start_time e + wcet t)"
    by blast
  from all have "Suc 0 < length (schedule ?s) \<longrightarrow>
               start_time (sort_key start_time (schedule ?s) ! Suc 0)
                 = end_time (sort_key start_time (schedule ?s) ! 0)"
    by blast
  then have c1: "start_time (sort_key start_time (schedule ?s) ! Suc 0)
                 = end_time (sort_key start_time (schedule ?s) ! 0)"
    by simp
  have "?eb \<in> set (schedule ?s)" by simp
  with all have "\<exists>t \<in> set (tasks ?app).
               task_id ?eb = id_task t \<and> end_time ?eb = start_time ?eb + wcet t"
    by blast
  then have c2: "\<exists>t \<in> set (tasks ?app). ''b'' = id_task t \<and> (50 :: int) = 20 + wcet t"
    by simp
  from h run c1 c2 show ?thesis by simp
qed

section \<open>Schedules grow at the end\<close>

lemma single_node_loop_extends:
  assumes "single_node_loop key ts g q d now sched = Inr s"
  shows "\<exists>rest. s = sched @ rest"
  using assms
proof (induction key ts g q d now sched rule: single_node_loop.induct)
  case (1 key ts graph in_degree current_time sched)
  then show ?case by simp
next
  case (2 key ts graph t ready_queue in_degree current_time sched)
  from "2.prems" obtain d' q' where
    rel: "release_dependents ts (graph (id_task t)) in_degree ready_queue = Inr (d', q')"
    and rec: "single_node_loop key ts graph (sort_key key q') d' (current_time + wcet t)
           (sched @ [\<lparr>task_id = id_task t, node_id = 1, start_time = current_time,
                       end_time = current_time + wcet t, deadline = deadline_task t\<rparr>]) = Inr s"
    by (rule single_node_loop_Cons_Inr)
  from "2.IH"[OF refl refl refl rel refl rec] show ?case by auto
qed

lemma multi_node_loop_extends:
  assumes "multi_node_loop ts ls g q d nt sched = Inr s"
  shows "\<exists>rest. s = sched @ rest"
  using assms
proof (induction ts ls g q d nt sched rule: multi_node_loop.induct)
  case (1 ts ls graph in_degree node_time sched)
  then show ?case by simp
next
  case (2 ts ls graph t ready_queue in_degree node_time sched)
  from "2.prems" obtain nid start d' q' nt' where
    mn: "min_node node_time = Inr nid" and mo: "map_of node_time nid = Some start"
    and rel: "release_dependents_multi ts ls nid (graph (id_task t)) in_degree
                ready_queue (AList.update nid (start + wcet t) node_time) = Inr (d', q', nt')"
    and rec: "multi_node_loop ts ls graph (sort_key edf_key q') d' nt'
           (sched @ [\<lparr>task_id = id_task t, node_id = nid, start_time = start,
                       end_time = start + wcet t, deadline = deadline_task t\<rparr>]) = Inr s"
    by (rule multi_node_loop_Cons_Inr)
  from "2.IH"[OF mn mo refl refl refl rel refl refl rec]
  show ?case by auto
qed

section \<open>Ties between equal deadlines\<close>

lemma graph_of_Nil: "graph_of [] = (\<lambda>_. [])"
  by (rule ext) (simp add: graph_of_def)

lemma single_node_loop_no_messages:
  assumes "sorted (map key q)"
  shows "\<exists>s. single_node_loop key ts (\<lambda>_. []) q d now sched = Inr s \<and>
           map task_id s = map task_id sched @ map id_task q"
  using assms
proof (induction q arbitrary: now sched)
  case Nil
  show ?case by simp
next
  case (Cons t q)
  let ?e = "\<lparr>task_id = id_task t, node_id = 1, start_time = now,
             end_time = now + wcet t, deadline = deadline_task t\<rparr>"
  from Cons.prems have srt: "sorted (map key q)" by simp
  then have id: "sort_key key q = q" by (rule sort_key_id_if_sorted)
  from Cons.IH[OF srt, of "now + wcet t" "sched @ [?e]"] obtain s where
    "single_node_loop key ts (\<lambda>_. []) q d (now + wcet t) (sched @ [?e]) = Inr s"
    and "map task_id s = map task_id (sched @ [?e]) @ map id_task q"
    by blast
  then show ?case by (simp add: id Let_def)
qed

lemma multi_node_loop_no_messages:
  assumes "multi_node_loop ts ls (\<lambda>_. []) q d nt sched = Inr s"
    and "sorted (map edf_key q)"
  shows "map task_id s = map task_id sched @ map id_task q"
  using assms
proof (induction q arbitrary: nt sched)
  case Nil
  then show ?case by simp
next
  case (Cons t q)
  from Cons.prems(2) have srt: "sorted (map edf_key q)" by simp
  then have id: "sort_key edf_key q = q" by (rule sort_key_id_if_sorted)
  from Cons.prems(1) obtain nid start d' q' nt' where
    rel: "release_dependents_multi ts ls nid [] d q
           (AList.update nid (start + wcet t) nt) = Inr (d', q', nt')"
    and rec: "multi_node_loop ts ls (\<lambda>_. []) (sort_key edf_key q') d' nt'
           (sched @ [\<lparr>task_id = id_task t, node_id = nid, start_time = start,
                       end_time = start + wcet t, deadline = deadline_task t\<rparr>]) = Inr s"
    by (rule multi_node_loop_Cons_Inr)
  from rel have d': "d' = d" and q': "q' = q" by simp_all
  from rec have "multi_node_loop ts ls (\<lambda>_. []) q d nt'
           (sched @ [\<lparr>task_id = id_task t, node_id = nid, start_time = start,
                       end_time = start + wcet t, deadline = deadline_task t\<rparr>]) = Inr s"
    by (simp only: q' d' id)
  from Cons.IH[OF this srt] show ?case by simp
qed

lemma ready_init_no_messages: "ready_init key [] ts = sort_key key ts"
proof -
  have "filter (\<lambda>t. in_degree_of [] (in_degree_init ts) (id_task t) = Some 0)
          (sort_key key ts) = sort_key key ts"
    by (rule filter_True) (simp add: in_degree_of_def in_degree_init_apply)
  then show ?thesis
    by (simp add: ready_init_def sort_key_idem)
qed

lemma release_dependents_appends:
  assumes "release_dependents ts deps d q = Inr (d', q')"
  shows "\<exists>new. q' = q @ new"
  using release_dependents_result[OF assms] by blast

lemma filter_deadline_sort_key:
  assumes "\<And>t. key t = kk \<longleftrightarrow> deadline_task t = k"
  shows "filter (\<lambda>t. deadline_task t = k) (sort_key key q)
           = filter (\<lambda>t. deadline_task t = k) q"
proof -
  have "filter (\<lambda>t. key t = kk) (sort_key key q) = filter (\<lambda>t. key t = kk) q"
    by (rule sort_key_stable)
  then show ?thesis by (simp only: assms)
qed

lemma ties_step:
  fixes e :: entry and t :: task
  assumes s: "s = (sched @ [e]) @ rest"
    and e: "task_id e = id_task t" "deadline e = deadline_task t"
    and ih: "map task_id (filter (\<lambda>e. deadline e = k) (drop (length (sched @ [e])) s))
               = map id_task (filter (\<lambda>t. deadline_task t = k) (q @ new)) @ ys"
  shows "\<exists>zs. map task_id (filter (\<lambda>e. deadline e = k) (drop (length sched) s))
               = map id_task (filter (\<lambda>t. deadline_task t = k) (t # q)) @ zs"
proof -
  from s have d0: "drop (length sched) s = e # rest" by simp
  from s have d1: "drop (length (sched @ [e])) s = rest" by simp
  from ih have r: "map task_id (filter (\<lambda>e. deadline e = k) rest)
               = map id_task (filter (\<lambda>t. deadline_task t = k) q)
                 @ (map id_task (filter (\<lambda>t. deadline_task t = k) new) @ ys)"
    unfolding d1 by simp
  show ?thesis
  proof (cases "deadline_task t = k")
    case True
    with e r have "map task_id (filter (\<lambda>e. deadline e = k) (e # rest))
               = map id_task (filter (\<lambda>t. deadline_task t = k) (t # q))
                 @ (map id_task (filter (\<lambda>t. deadline_task t = k) new) @ ys)"
      by simp
    then show ?thesis unfolding d0 by blast
  next
    case False
    with e r have "map task_id (filter (\<lambda>e. deadline e = k) (e # rest))
               = map id_task (filter (\<lambda>t. deadline_task t = k) (t # q))
                 @ (map id_task (filter (\<lambda>t. deadline_task t = k) new) @ ys)"
      by simp
    then show ?thesis unfolding d0 by blast
  qed
qed

lemma single_node_loop_ties:
  assumes "single_node_loop key ts g q d now sched = Inr s"
    and "\<And>t. key t = kk \<longleftrightarrow> deadline_task t = k"
  shows "\<exists>ys. map task_id (filter (\<lambda>e. deadline e = k) (drop (length sched) s))
               = map id_task (filter (\<lambda>t. deadline_task t = k) q) @ ys"
  using assms
proof (induction key ts g q d now sched rule: single_node_loop.induct)
  case (1 key ts graph in_degree current_time sched)
  then show ?case by simp
next
  case (2 key ts graph t ready_queue in_degree current_time sched)
  let ?e = "\<lparr>task_id = id_task t, node_id = 1, start_time = current_time,
             end_time = current_time + wcet t, deadline = deadline_task t\<rparr>"
  from "2.prems"(1) obtain d' q' where
    rel: "release_dependents ts (graph (id_task t)) in_degree ready_queue = Inr (d', q')"
    and rec: "single_node_loop key ts graph (sort_key key q') d' (current_time + wcet t)
           (sched @ [?e]) = Inr s"
    by (rule single_node_loop_Cons_Inr)
  from release_dependents_appends[OF rel] obtain new where q': "q' = ready_queue @ new"
    by blast
  from single_node_loop_extends[OF rec] obtain rest where s: "s = (sched @ [?e]) @ rest"
    by blast
  from "2.IH"[OF refl refl refl rel refl rec "2.prems"(2)] obtain ys where
    "map task_id (filter (\<lambda>e. deadline e = k) (drop (length (sched @ [?e])) s))
       = map id_task (filter (\<lambda>t. deadline_task t = k) (sort_key key q')) @ ys"
    by blast
  then have ih: "map task_id (filter (\<lambda>e. deadline e = k) (drop (length (sched @ [?e])) s))
       = map id_task (filter (\<lambda>t. deadline_task t = k) (ready_queue @ new)) @ ys"
    unfolding filter_deadline_sort_key[of key kk k, OF "2.prems"(2)] q' .
  show ?case
    by (rule ties_step[OF s _ _ ih]) simp_all
qed

lemma multi_node_loop_ties:
  assumes "multi_node_loop ts ls g q d nt sched = Inr s"
  shows "\<exists>ys. map task_id (filter (\<lambda>e. deadline e = k) (drop (length sched) s))
               = map id_task (filter (\<lambda>t. deadline_task t = k) q) @ ys"
  using assms
proof (induction ts ls g q d nt sched rule: multi_node_loop.induct)
  case (1 ts ls graph in_degree node_time sched)
  then show ?case by simp
next
  case (2 ts ls graph t ready_queue in_degree node_time sched)
  from "2.prems" obtain nid start d' q' nt' where
    mn: "min_node node_time = Inr nid" and mo: "map_of node_time nid = Some start"
    and rel: "release_dependents_multi ts ls nid (graph (id_task t)) in_degree
                ready_queue (AList.update nid (start + wcet t) node_time) = Inr (d', q', nt')"
    and rec: "multi_node_loop ts ls graph (sort_key edf_key q') d' nt'
           (sched @ [\<lparr>task_id = id_task t, node_id = nid, start_time = start,
                       end_time = start + wcet t, deadline = deadline_task t\<rparr>]) = Inr s"
    by (rule multi_node_loop_Cons_Inr)
  let ?e = "\<lparr>task_id = id_task t, node_id = nid, start_time = start,
             end_time = start + wcet t, deadline = deadline_task t\<rparr>"
  from release_dependents_appends[OF release_dependents_multi_single[OF rel]]
  obtain new where q': "q' = ready_queue @ new" by blast
  from multi_node_loop_extends[OF rec] obtain rest where s: "s = (sched @ [?e]) @ rest"
    by blast
  have key: "\<And>t. edf_key t = k \<longleftrightarrow> deadline_task t = k" by (simp add: edf_key_def)
  from "2.IH"[OF mn mo refl refl refl rel refl refl rec] obtain ys where
    "map task_id (filter (\<lambda>e. deadline e = k) (drop (length (sched @ [?e])) s))
       = map id_task (filter (\<lambda>t. deadline_task t = k) (sort_key edf_key q')) @ ys"
    by blast
  then have ih: "map task_id (filter (\<lambda>e. deadline e = k) (drop (length (sched @ [?e])) s))
       = map id_task (filter (\<lambda>t. deadline_task t = k) (ready_queue @ new)) @ ys"
    unfolding filter_deadline_sort_key[of edf_key k k, OF key] q' .
  show ?case
    by (rule ties_step[OF s _ _ ih]) simp_all
qed

lemma ready_init_deadline:
  assumes "\<And>t. key t = kk \<longleftrightarrow> deadline_task t = k"
  shows "filter (\<lambda>t. deadline_task t = k) (ready_init key M ts0)
           = filter (\<lambda>t. deadline_task t = k \<and> id_task t \<notin> receiver ` set M) ts0"
proof -
  let ?r = "\<lambda>t. in_degree_of M (in_degree_init ts0) (id_task t) = Some 0"
  have r: "?r t \<longleftrightarrow> id_task t \<notin> receiver ` set M" if "t \<in> set ts0" for t
  proof -
    from that have "?r t \<longleftrightarrow> (\<forall>m \<in> set M. receiver m \<noteq> id_task t)"
      by (auto simp: in_degree_of_init unmet_def filter_empty_conv)
    also have "\<dots> \<longleftrightarrow> id_task t \<notin> receiver ` set M" by force
    finally show ?thesis .
  qed
  have "filter (\<lambda>t. deadline_task t = k) (ready_init key M ts0)
          = filter (\<lambda>t. deadline_task t = k) (filter ?r (sort_key key ts0))"
    unfolding ready_init_def by (rule filter_deadline_sort_key[OF assms])
  also have "\<dots> = filter ?r (filter (\<lambda>t. deadline_task t = k) (sort_key key ts0))"
    by (simp add: conj_commute)
  also have "\<dots> = filter ?r (filter (\<lambda>t. deadline_task t = k) ts0)"
    by (simp only: filter_deadline_sort_key[OF assms])
  also have "\<dots> = filter (\<lambda>t. deadline_task t = k \<and> id_task t \<notin> receiver ` set M) ts0"
  proof -
    have "filter ?r (filter (\<lambda>t. deadline_task t = k) ts0)
            = filter (\<lambda>t. deadline_task t = k \<and> ?r t) ts0"
      by (simp add: conj_commute)
    also have "\<dots> = filter (\<lambda>t. deadline_task t = k \<and> id_task t \<notin> receiver ` set M) ts0"
      by (rule filter_cong[OF refl]) (simp add: r)
    finally show ?thesis .
  qed
  finally show ?thesis .
qed

text \<open>
  Claim C4 says that of two ready tasks with equal deadlines every scheduler selects
  the one with the smaller task id, whatever the order of the input list. The sorts
  have no secondary key: with the tasks "1" and "0" given in this order, both of
  deadline 250, all three operations schedule "1" first, although "0" is the smaller
  id.
\<close>

theorem equal_deadlines_larger_id_first:
  "''0'' < ''1''
   \<and> fst (edf_single_node
        \<lparr>tasks = [\<lparr>id_task = ''1'', wcet = 20, deadline_task = 250, node_id_task = None\<rparr>,
                   \<lparr>id_task = ''0'', wcet = 20, deadline_task = 250, node_id_task = None\<rparr>],
          messages = []\<rparr>)
     = Inr \<lparr>schedule =
         [\<lparr>task_id = ''1'', node_id = 1, start_time = 0, end_time = 20, deadline = 250\<rparr>,
          \<lparr>task_id = ''0'', node_id = 1, start_time = 20, end_time = 40, deadline = 250\<rparr>],
         name = ''EDF Single Node''\<rparr>
   \<and> fst (ldf_single_node
        \<lparr>tasks = [\<lparr>id_task = ''1'', wcet = 20, deadline_task = 250, node_id_task = None\<rparr>,
                   \<lparr>id_task = ''0'', wcet = 20, deadline_task = 250, node_id_task = None\<rparr>],
          messages = []\<rparr>)
     = Inr \<lparr>schedule =
         [\<lparr>task_id = ''1'', node_id = 1, start_time = 0, end_time = 20, deadline = 250\<rparr>,
          \<lparr>task_id = ''0'', node_id = 1, start_time = 20, end_time = 40, deadline = 250\<rparr>],
         name = ''LDF Single Node''\<rparr>
   \<and> fst (edf_multinode
        \<lparr>tasks = [\<lparr>id_task = ''1'', wcet = 20, deadline_task = 250, node_id_task = None\<rparr>,
                   \<lparr>id_task = ''0'', wcet = 20, deadline_task = 250, node_id_task = None\<rparr>],
          messages = []\<rparr>
        \<lparr>nodes = [\<lparr>id_node = 1\<rparr>], links = []\<rparr>)
     = Inr \<lparr>schedule =
         [\<lparr>task_id = ''1'', node_id = 1, start_time = 0, end_time = 20, deadline = 250\<rparr>,
          \<lparr>task_id = ''0'', node_id = 1, start_time = 20, end_time = 40, deadline = 250\<rparr>],
         name = ''EDF Multi Node''\<rparr>"
  by (simp add: ldf_single_node_def edf_single_node_def edf_multinode_def in_degree_init_def
      node_time_init_def edf_key_def ldf_key_def)

text \<open>
  Claim C4, as amended. Of ready tasks with equal deadlines every scheduler selects
  first the one that stands first in the ready queue: the sort by deadline (ascending
  for EDF, descending for LDF) is stable and there is no secondary key. At every step
  of each loop, from any ready queue, the tasks of the queue that share a deadline are
  scheduled in their queue order, and before every task of that deadline that is
  released later. The tasks that are ready at the start stand in the order of the
  input list: in every returned schedule the entries of a given deadline begin with
  the tasks of that deadline that receive no message, in input order. With no messages
  the schedule lists the tasks in the input order stably sorted by deadline.
\<close>

theorem equal_deadlines_keep_queue_order:
  "(single_node_loop edf_key ts g q d now sched = Inr s \<longrightarrow>
      (\<exists>ys. map task_id (filter (\<lambda>e. deadline e = k) (drop (length sched) s))
             = map id_task (filter (\<lambda>t. deadline_task t = k) q) @ ys))
   \<and> (single_node_loop ldf_key ts g q d now sched = Inr s \<longrightarrow>
      (\<exists>ys. map task_id (filter (\<lambda>e. deadline e = k) (drop (length sched) s))
             = map id_task (filter (\<lambda>t. deadline_task t = k) q) @ ys))
   \<and> (multi_node_loop ts ls g q d nt sched = Inr s \<longrightarrow>
      (\<exists>ys. map task_id (filter (\<lambda>e. deadline e = k) (drop (length sched) s))
             = map id_task (filter (\<lambda>t. deadline_task t = k) q) @ ys))
   \<and> (\<forall>r. fst (edf_single_node app) = Inr r \<longrightarrow>
      (\<exists>ys. map task_id (filter (\<lambda>e. deadline e = k) (schedule r))
             = map id_task (filter (\<lambda>t. deadline_task t = k \<and>
                 id_task t \<notin> receiver ` set (messages app)) (tasks app)) @ ys))
   \<and> (\<forall>r. fst (ldf_single_node app) = Inr r \<longrightarrow>
      (\<exists>ys. map task_id (filter (\<lambda>e. deadline e = k) (schedule r))
             = map id_task (filter (\<lambda>t. deadline_task t = k \<and>
                 id_task t \<notin> receiver ` set (messages app)) (tasks app)) @ ys))
   \<and> (\<forall>r. fst (edf_multinode app plat) = Inr r \<longrightarrow>
      (\<exists>ys. map task_id (filter (\<lambda>e. deadline e = k) (schedule r))
             = map id_task (filter (\<lambda>t. deadline_task t = k \<and>
                 id_task t \<notin> receiver ` set (messages app)) (tasks app)) @ ys))
   \<and> (messages app = [] \<longrightarrow>
        (\<exists>r. fst (edf_single_node app) = Inr r \<and>
           map task_id (schedule r) = map id_task (sort_key edf_key (tasks app))) \<and>
        (\<exists>r. fst (ldf_single_node app) = Inr r \<and>
           map task_id (schedule r) = map id_task (sort_key ldf_key (tasks app))) \<and>
        (\<forall>r. fst (edf_multinode app plat) = Inr r \<longrightarrow>
           map task_id (schedule r) = map id_task (sort_key edf_key (tasks app))))"
proof -
  have ek: "\<And>t. edf_key t = k \<longleftrightarrow> deadline_task t = k" by (simp add: edf_key_def)
  have lk: "\<And>t. ldf_key t = - k \<longleftrightarrow> deadline_task t = k" by (simp add: ldf_key_def)
  have known: "receiver ` set (messages app) \<subseteq> id_task ` set (tasks app)"
    if "ldf_single_node app \<noteq> (Inl KeyError, app) \<or> edf_single_node app \<noteq> (Inl KeyError, app)
        \<or> edf_multinode app plat \<noteq> (Inl KeyError, app, plat)"
  proof (rule ccontr)
    assume n: "\<not> receiver ` set (messages app) \<subseteq> id_task ` set (tasks app)"
    from that ldf_single_node_unknown[OF n] edf_single_node_unknown[OF n]
      edf_multinode_unknown[OF n, of plat]
    show False by simp
  qed
  have 1: "single_node_loop edf_key ts g q d now sched = Inr s \<longrightarrow>
      (\<exists>ys. map task_id (filter (\<lambda>e. deadline e = k) (drop (length sched) s))
             = map id_task (filter (\<lambda>t. deadline_task t = k) q) @ ys)"
    using single_node_loop_ties[of edf_key ts g q d now sched s k k, OF _ ek] by blast
  have 2: "single_node_loop ldf_key ts g q d now sched = Inr s \<longrightarrow>
      (\<exists>ys. map task_id (filter (\<lambda>e. deadline e = k) (drop (length sched) s))
             = map id_task (filter (\<lambda>t. deadline_task t = k) q) @ ys)"
    using single_node_loop_ties[of ldf_key ts g q d now sched s "- k" k, OF _ lk] by blast
  have 3: "multi_node_loop ts ls g q d nt sched = Inr s \<longrightarrow>
      (\<exists>ys. map task_id (filter (\<lambda>e. deadline e = k) (drop (length sched) s))
             = map id_task (filter (\<lambda>t. deadline_task t = k) q) @ ys)"
    using multi_node_loop_ties[of ts ls g q d nt sched s k] by blast
  have 4: "\<exists>ys. map task_id (filter (\<lambda>e. deadline e = k) (schedule r))
             = map id_task (filter (\<lambda>t. deadline_task t = k \<and>
                 id_task t \<notin> receiver ` set (messages app)) (tasks app)) @ ys"
    if r: "fst (edf_single_node app) = Inr r" for r
  proof -
    from r have kn: "receiver ` set (messages app) \<subseteq> id_task ` set (tasks app)"
      by (intro known) auto
    from r obtain sch where
      run: "single_node_loop edf_key (sort_key edf_key (tasks app)) (graph_of (messages app))
              (ready_init edf_key (messages app) (tasks app))
              (in_degree_of (messages app) (in_degree_init (tasks app))) 0 [] = Inr sch"
      and s: "schedule r = sch"
      by (auto simp: edf_single_node_known[OF kn] split: sum.splits)
    from single_node_loop_ties[OF run ek] s show ?thesis
      by (simp add: ready_init_deadline[OF ek])
  qed
  have 5: "\<exists>ys. map task_id (filter (\<lambda>e. deadline e = k) (schedule r))
             = map id_task (filter (\<lambda>t. deadline_task t = k \<and>
                 id_task t \<notin> receiver ` set (messages app)) (tasks app)) @ ys"
    if r: "fst (ldf_single_node app) = Inr r" for r
  proof -
    from r have kn: "receiver ` set (messages app) \<subseteq> id_task ` set (tasks app)"
      by (intro known) auto
    from r obtain sch where
      run: "single_node_loop ldf_key (sort_key ldf_key (tasks app)) (graph_of (messages app))
              (ready_init ldf_key (messages app) (tasks app))
              (in_degree_of (messages app) (in_degree_init (tasks app))) 0 [] = Inr sch"
      and s: "schedule r = sch"
      by (auto simp: ldf_single_node_known[OF kn] split: sum.splits)
    from single_node_loop_ties[OF run lk] s show ?thesis
      by (simp add: ready_init_deadline[OF lk])
  qed
  have 6: "\<exists>ys. map task_id (filter (\<lambda>e. deadline e = k) (schedule r))
             = map id_task (filter (\<lambda>t. deadline_task t = k \<and>
                 id_task t \<notin> receiver ` set (messages app)) (tasks app)) @ ys"
    if r: "fst (edf_multinode app plat) = Inr r" for r
  proof -
    from r have kn: "receiver ` set (messages app) \<subseteq> id_task ` set (tasks app)"
      by (intro known) auto
    from r obtain sch where
      run: "multi_node_loop (sort_key edf_key (tasks app)) (links plat)
              (graph_of (messages app)) (ready_init edf_key (messages app) (tasks app))
              (in_degree_of (messages app) (in_degree_init (tasks app)))
              (node_time_init (nodes plat)) [] = Inr sch"
      and s: "schedule r = sch"
      by (auto simp: edf_multinode_known[OF kn] split: sum.splits)
    from multi_node_loop_ties[OF run, of k] s show ?thesis
      by (simp add: ready_init_deadline[OF ek])
  qed
  have 7: "messages app = [] \<longrightarrow>
        (\<exists>r. fst (edf_single_node app) = Inr r \<and>
           map task_id (schedule r) = map id_task (sort_key edf_key (tasks app))) \<and>
        (\<exists>r. fst (ldf_single_node app) = Inr r \<and>
           map task_id (schedule r) = map id_task (sort_key ldf_key (tasks app))) \<and>
        (\<forall>r. fst (edf_multinode app plat) = Inr r \<longrightarrow>
           map task_id (schedule r) = map id_task (sort_key edf_key (tasks app)))"
  proof (intro impI conjI)
    assume m: "messages app = []"
    then have kn: "receiver ` set (messages app) \<subseteq> id_task ` set (tasks app)" by simp
    from single_node_loop_no_messages[of edf_key "sort_key edf_key (tasks app)"
        "sort_key edf_key (tasks app)" "in_degree_of [] (in_degree_init (tasks app))" 0 "[]"]
      sorted_sort_key[of edf_key "tasks app"]
    show "\<exists>r. fst (edf_single_node app) = Inr r \<and>
           map task_id (schedule r) = map id_task (sort_key edf_key (tasks app))"
      by (auto simp: edf_single_node_known[OF kn] m ready_init_no_messages graph_of_Nil)
    from single_node_loop_no_messages[of ldf_key "sort_key ldf_key (tasks app)"
        "sort_key ldf_key (tasks app)" "in_degree_of [] (in_degree_init (tasks app))" 0 "[]"]
      sorted_sort_key[of ldf_key "tasks app"]
    show "\<exists>r. fst (ldf_single_node app) = Inr r \<and>
           map task_id (schedule r) = map id_task (sort_key ldf_key (tasks app))"
      by (auto simp: ldf_single_node_known[OF kn] m ready_init_no_messages graph_of_Nil)
    show "\<forall>r. fst (edf_multinode app plat) = Inr r \<longrightarrow>
           map task_id (schedule r) = map id_task (sort_key edf_key (tasks app))"
    proof (intro allI impI)
      fix r assume "fst (edf_multinode app plat) = Inr r"
      then obtain sch where
        run: "multi_node_loop (sort_key edf_key (tasks app)) (links plat) (\<lambda>_. [])
                (sort_key edf_key (tasks app)) (in_degree_of [] (in_degree_init (tasks app)))
                (node_time_init (nodes plat)) [] = Inr sch"
        and s: "schedule r = sch"
        by (auto simp: edf_multinode_known[OF kn] m ready_init_no_messages graph_of_Nil
            split: sum.splits)
      from multi_node_loop_no_messages[OF run sorted_sort_key] s
      show "map task_id (schedule r) = map id_task (sort_key edf_key (tasks app))" by simp
    qed
  qed
  from 1 2 3 4 5 6 7 show ?thesis by (intro conjI allI impI) blast+
qed

theorem equal_deadlines_keep_queue_order_witness:
  "fst (edf_single_node \<lparr>tasks =
       [\<lparr>id_task = ''r'', wcet = 10, deadline_task = 1, node_id_task = None\<rparr>,
        \<lparr>id_task = ''p'', wcet = 10, deadline_task = 5, node_id_task = None\<rparr>,
        \<lparr>id_task = ''q'', wcet = 10, deadline_task = 5, node_id_task = None\<rparr>,
        \<lparr>id_task = ''x'', wcet = 10, deadline_task = 5, node_id_task = None\<rparr>],
      messages = [\<lparr>sender = ''r'', receiver = ''x''\<rparr>]\<rparr>)
     = Inr \<lparr>schedule =
        [\<lparr>task_id = ''r'', node_id = 1, start_time = 0, end_time = 10, deadline = 1\<rparr>,
         \<lparr>task_id = ''p'', node_id = 1, start_time = 10, end_time = 20, deadline = 5\<rparr>,
         \<lparr>task_id = ''q'', node_id = 1, start_time = 20, end_time = 30, deadline = 5\<rparr>,
         \<lparr>task_id = ''x'', node_id = 1, start_time = 30, end_time = 40, deadline = 5\<rparr>],
        name = ''EDF Single Node''\<rparr>
   \<and> (\<exists>ys. map task_id (filter (\<lambda>e. deadline e = 5)
        [\<lparr>task_id = ''r'', node_id = 1, start_time = 0, end_time = 10, deadline = 1\<rparr>,
         \<lparr>task_id = ''p'', node_id = 1, start_time = 10, end_time = 20, deadline = 5\<rparr>,
         \<lparr>task_id = ''q'', node_id = 1, start_time = 20, end_time = 30, deadline = 5\<rparr>,
         \<lparr>task_id = ''x'', node_id = 1, start_time = 30, end_time = 40, deadline = 5\<rparr>]) = [''p'', ''q''] @ ys)
   \<and> fst (ldf_single_node \<lparr>tasks =
       [\<lparr>id_task = ''r'', wcet = 10, deadline_task = 1, node_id_task = None\<rparr>,
        \<lparr>id_task = ''p'', wcet = 10, deadline_task = 5, node_id_task = None\<rparr>,
        \<lparr>id_task = ''q'', wcet = 10, deadline_task = 5, node_id_task = None\<rparr>,
        \<lparr>id_task = ''x'', wcet = 10, deadline_task = 5, node_id_task = None\<rparr>],
      messages = [\<lparr>sender = ''r'', receiver = ''x''\<rparr>]\<rparr>)
     = Inr \<lparr>schedule =
        [\<lparr>task_id = ''p'', node_id = 1, start_time = 0, end_time = 10, deadline = 5\<rparr>,
         \<lparr>task_id = ''q'', node_id = 1, start_time = 10, end_time = 20, deadline = 5\<rparr>,
         \<lparr>task_id = ''r'', node_id = 1, start_time = 20, end_time = 30, deadline = 1\<rparr>,
         \<lparr>task_id = ''x'', node_id = 1, start_time = 30, end_time = 40, deadline = 5\<rparr>],
        name = ''LDF Single Node''\<rparr>
   \<and> (\<exists>ys. map task_id (filter (\<lambda>e. deadline e = 5)
        [\<lparr>task_id = ''p'', node_id = 1, start_time = 0, end_time = 10, deadline = 5\<rparr>,
         \<lparr>task_id = ''q'', node_id = 1, start_time = 10, end_time = 20, deadline = 5\<rparr>,
         \<lparr>task_id = ''r'', node_id = 1, start_time = 20, end_time = 30, deadline = 1\<rparr>,
         \<lparr>task_id = ''x'', node_id = 1, start_time = 30, end_time = 40, deadline = 5\<rparr>]) = [''p'', ''q''] @ ys)"
proof -
  let ?app = "\<lparr>tasks =
       [\<lparr>id_task = ''r'', wcet = 10, deadline_task = 1, node_id_task = None\<rparr>,
        \<lparr>id_task = ''p'', wcet = 10, deadline_task = 5, node_id_task = None\<rparr>,
        \<lparr>id_task = ''q'', wcet = 10, deadline_task = 5, node_id_task = None\<rparr>,
        \<lparr>id_task = ''x'', wcet = 10, deadline_task = 5, node_id_task = None\<rparr>],
      messages = [\<lparr>sender = ''r'', receiver = ''x''\<rparr>]\<rparr>"
  let ?E = "\<lparr>schedule =
        [\<lparr>task_id = ''r'', node_id = 1, start_time = 0, end_time = 10, deadline = 1\<rparr>,
         \<lparr>task_id = ''p'', node_id = 1, start_time = 10, end_time = 20, deadline = 5\<rparr>,
         \<lparr>task_id = ''q'', node_id = 1, start_time = 20, end_time = 30, deadline = 5\<rparr>,
         \<lparr>task_id = ''x'', node_id = 1, start_time = 30, end_time = 40, deadline = 5\<rparr>],
        name = ''EDF Single Node''\<rparr>"
  let ?L = "\<lparr>schedule =
        [\<lparr>task_id = ''p'', node_id = 1, start_time = 0, end_time = 10, deadline = 5\<rparr>,
         \<lparr>task_id = ''q'', node_id = 1, start_time = 10, end_time = 20, deadline = 5\<rparr>,
         \<lparr>task_id = ''r'', node_id = 1, start_time = 20, end_time = 30, deadline = 1\<rparr>,
         \<lparr>task_id = ''x'', node_id = 1, start_time = 30, end_time = 40, deadline = 5\<rparr>],
        name = ''LDF Single Node''\<rparr>"
  have e: "fst (edf_single_node ?app) = Inr ?E"
    by (simp add: edf_single_node_def in_degree_init_def edf_key_def)
  have l: "fst (ldf_single_node ?app) = Inr ?L"
    by (simp add: ldf_single_node_def in_degree_init_def ldf_key_def)
  from equal_deadlines_keep_queue_order[where app = ?app and k = 5] e l
  have "\<exists>ys. map task_id (filter (\<lambda>e. deadline e = 5) (schedule ?E))
             = map id_task (filter (\<lambda>t. deadline_task t = 5 \<and>
                 id_task t \<notin> receiver ` set (messages ?app)) (tasks ?app)) @ ys"
    and "\<exists>ys. map task_id (filter (\<lambda>e. deadline e = 5) (schedule ?L))
             = map id_task (filter (\<lambda>t. deadline_task t = 5 \<and>
                 id_task t \<notin> receiver ` set (messages ?app)) (tasks ?app)) @ ys"
    by blast+
  then have "\<exists>ys. map task_id (filter (\<lambda>e. deadline e = 5) (schedule ?E)) = [''p'', ''q''] @ ys"
    and "\<exists>ys. map task_id (filter (\<lambda>e. deadline e = 5) (schedule ?L)) = [''p'', ''q''] @ ys"
    by simp_all
  with e l show ?thesis by simp
qed

section \<open>The node a task is assigned to\<close>

text \<open>
  \<open>first_min nt i\<close> says that position \<open>i\<close> of the clock list \<open>nt\<close> holds a minimal
  clock and that every position before it holds a strictly larger one. \<open>clock_of es x\<close>
  is the end time of the last entry of \<open>es\<close> on node \<open>x\<close>, and 0 when there is none:
  the free-time clock of \<open>x\<close> after the entries \<open>es\<close>, when no task carries a
  \<^verbatim>\<open>node_id\<close>.
\<close>

definition first_min :: "(int \<times> int) list \<Rightarrow> nat \<Rightarrow> bool" where
  "first_min nt i \<longleftrightarrow>
     i < length nt \<and> (\<forall>j < length nt. snd (nt ! i) \<le> snd (nt ! j)) \<and>
     (\<forall>j < i. snd (nt ! i) < snd (nt ! j))"

lemma first_min_snoc_less:
  assumes "first_min xs i" and "snd c < snd (xs ! i)"
  shows "first_min (xs @ [c]) (length xs)"
proof -
  from assms(1) have i: "i < length xs"
    and le: "\<And>j. j < length xs \<Longrightarrow> snd (xs ! i) \<le> snd (xs ! j)"
    unfolding first_min_def by blast+
  have a: "\<forall>j < length (xs @ [c]). snd ((xs @ [c]) ! length xs) \<le> snd ((xs @ [c]) ! j)"
  proof (intro allI impI)
    fix j assume "j < length (xs @ [c])"
    then consider "j < length xs" | "j = length xs" by fastforce
    then show "snd ((xs @ [c]) ! length xs) \<le> snd ((xs @ [c]) ! j)"
    proof cases
      case 1
      with le[OF 1] assms(2) show ?thesis by (simp add: nth_append)
    next
      case 2
      then show ?thesis by simp
    qed
  qed
  have b: "\<forall>j < length xs. snd ((xs @ [c]) ! length xs) < snd ((xs @ [c]) ! j)"
  proof (intro allI impI)
    fix j assume j: "j < length xs"
    with le[OF j] assms(2) show "snd ((xs @ [c]) ! length xs) < snd ((xs @ [c]) ! j)"
      by (simp add: nth_append)
  qed
  from a b show ?thesis unfolding first_min_def by simp
qed

lemma first_min_snoc_keep:
  assumes "first_min xs i" and "\<not> snd c < snd (xs ! i)"
  shows "first_min (xs @ [c]) i"
proof -
  from assms(1) have i: "i < length xs"
    and le: "\<And>j. j < length xs \<Longrightarrow> snd (xs ! i) \<le> snd (xs ! j)"
    and lt: "\<And>j. j < i \<Longrightarrow> snd (xs ! i) < snd (xs ! j)"
    unfolding first_min_def by blast+
  have a: "\<forall>j < length (xs @ [c]). snd ((xs @ [c]) ! i) \<le> snd ((xs @ [c]) ! j)"
  proof (intro allI impI)
    fix j assume "j < length (xs @ [c])"
    then consider "j < length xs" | "j = length xs" by fastforce
    then show "snd ((xs @ [c]) ! i) \<le> snd ((xs @ [c]) ! j)"
    proof cases
      case 1
      with le[OF 1] i show ?thesis by (simp add: nth_append)
    next
      case 2
      with assms(2) i show ?thesis by (simp add: nth_append)
    qed
  qed
  have b: "\<forall>j < i. snd ((xs @ [c]) ! i) < snd ((xs @ [c]) ! j)"
  proof (intro allI impI)
    fix j assume j: "j < i"
    with lt[OF j] i show "snd ((xs @ [c]) ! i) < snd ((xs @ [c]) ! j)"
      by (simp add: nth_append)
  qed
  from i a b show ?thesis unfolding first_min_def by simp
qed

lemma fold_min_first_min:
  "\<exists>i. first_min (p # ps) i \<and>
       (p # ps) ! i = fold (\<lambda>c best. if snd c < snd best then c else best) ps p"
proof (induction ps rule: rev_induct)
  case Nil
  have "first_min [p] 0" by (simp add: first_min_def)
  then show ?case by auto
next
  case (snoc c ps)
  let ?f = "\<lambda>c best. if snd c < snd best then c else (best :: int \<times> int)"
  from snoc.IH obtain i where fm: "first_min (p # ps) i"
    and best: "(p # ps) ! i = fold ?f ps p" by blast
  from fm have i: "i < length (p # ps)" unfolding first_min_def by blast
  show ?case
  proof (cases "snd c < snd ((p # ps) ! i)")
    case True
    from first_min_snoc_less[OF fm True]
    have "first_min (p # ps @ [c]) (length (p # ps))" by simp
    moreover have "(p # ps @ [c]) ! length (p # ps) = fold ?f (ps @ [c]) p"
      using True best by (simp add: nth_append)
    ultimately show ?thesis by blast
  next
    case False
    from first_min_snoc_keep[OF fm False]
    have "first_min (p # ps @ [c]) i" by simp
    moreover have "(p # ps @ [c]) ! i = (p # ps) ! i"
      using i by (metis append_Cons nth_append)
    then have "(p # ps @ [c]) ! i = fold ?f (ps @ [c]) p"
      using False best by simp
    ultimately show ?thesis by blast
  qed
qed

lemma min_node_first_min:
  assumes "min_node nt = Inr k"
  shows "\<exists>i. first_min nt i \<and> fst (nt ! i) = k"
proof (cases nt)
  case Nil
  with assms show ?thesis by simp
next
  case (Cons p ps)
  let ?b = "fold (\<lambda>c best. if snd c < snd best then c else best) ps p"
  from assms have "Inr (fst ?b) = (Inr k :: error + int)"
    unfolding Cons min_node.simps .
  then have k: "k = fst ?b" by (simp only: sum.inject)
  from fold_min_first_min[of p ps] obtain i where
    "first_min (p # ps) i" and "(p # ps) ! i = ?b" by blast
  then show ?thesis unfolding Cons k by auto
qed

lemma map_of_nth:
  assumes "distinct (map fst nt)" and "i < length nt"
  shows "map_of nt (fst (nt ! i)) = Some (snd (nt ! i))"
proof -
  from assms(2) have "(fst (nt ! i), snd (nt ! i)) \<in> set nt" by simp
  with assms(1) show ?thesis by (rule map_of_is_SomeI)
qed

lemma node_time_init_distinct_nodes:
  assumes "distinct (map id_node ns)"
  shows "node_time_init ns = map (\<lambda>n. (id_node n, 0)) ns"
proof -
  have "\<And>acc. distinct (map fst acc @ map id_node ns) \<Longrightarrow>
          fold (\<lambda>n nt. AList.update (id_node n) 0 nt) ns acc
            = acc @ map (\<lambda>n. (id_node n, 0)) ns"
  proof (induction ns)
    case Nil
    show ?case by simp
  next
    case (Cons n ns)
    from Cons.prems have "id_node n \<notin> fst ` set acc" by auto
    then have u: "AList.update (id_node n) 0 acc = acc @ [(id_node n, 0)]"
      by (induction acc) auto
    from Cons.prems have "distinct (map fst (acc @ [(id_node n, 0)]) @ map id_node ns)"
      by auto
    from Cons.IH[OF this] u show ?case by simp
  qed
  from this[of "[]"] assms show ?thesis by (simp add: node_time_init_def)
qed

definition clock_of :: "entry list \<Rightarrow> int \<Rightarrow> int" where
  "clock_of es x =
     (case find (\<lambda>e. node_id e = x) (rev es) of None \<Rightarrow> 0 | Some e \<Rightarrow> end_time e)"

lemma clock_of_Nil: "clock_of [] x = 0"
  by (simp add: clock_of_def)

lemma clock_of_snoc:
  "clock_of (es @ [e]) x = (if node_id e = x then end_time e else clock_of es x)"
  by (simp add: clock_of_def)

lemma update_clock_list:
  assumes "distinct K" and "k \<in> set K"
  shows "AList.update k v (map (\<lambda>x. (x, f x)) K)
           = map (\<lambda>x. (x, if x = k then v else f x)) K"
  using assms
proof (induction K)
  case Nil
  then show ?case by simp
next
  case (Cons a K)
  show ?case
  proof (cases "a = k")
    case True
    with Cons.prems have "k \<notin> set K" by simp
    then have "map (\<lambda>x. (x, f x)) K = map (\<lambda>x. (x, if x = k then v else f x)) K"
      by (intro map_cong) auto
    with True show ?thesis by simp
  next
    case False
    with Cons.prems have "distinct K" "k \<in> set K" by simp_all
    from Cons.IH[OF this] False show ?thesis by simp
  qed
qed

lemma apply_link_delay_no_hint:
  assumes "node_id_task t = None \<or> node_id_task t = Some 0"
  shows "apply_link_delay ls nid t nt = Inr nt"
  using assms by (auto simp: apply_link_delay_def)

lemma release_dependents_multi_no_hint:
  assumes "release_dependents_multi ts ls nid deps d q nt = Inr (d', q', nt')"
    and "\<forall>t \<in> set ts. node_id_task t = None \<or> node_id_task t = Some 0"
  shows "nt' = nt"
  using assms(1)
proof (induction deps arbitrary: d q)
  case Nil
  then show ?case by simp
next
  case (Cons dep deps)
  from Cons.prems show ?case
  proof (cases rule: release_dependents_multi_Cons_cases)
    case (miss v)
    from Cons.IH[of "d(dep \<mapsto> v - 1)" q, OF miss(3)] show ?thesis .
  next
    case (hit t nt1)
    from find_Some_id[OF hit(2)] assms(2)
    have "node_id_task t = None \<or> node_id_task t = Some 0" by blast
    from apply_link_delay_no_hint[OF this, of ls nid nt] hit(3) have "nt1 = nt" by simp
    with hit(4) have "release_dependents_multi ts ls nid deps (d(dep \<mapsto> 0)) (q @ [t]) nt
             = Inr (d', q', nt')"
      by (simp only:)
    from Cons.IH[of "d(dep \<mapsto> 0)" "q @ [t]", OF this] show ?thesis .
  qed
qed

lemma apply_link_delay_keys:
  assumes "apply_link_delay ls nid t nt = Inr nt'"
  shows "map fst nt' = map fst nt"
proof (cases "node_id_task t")
  case None
  with assms show ?thesis by (simp add: apply_link_delay_def)
next
  case (Some h)
  show ?thesis
  proof (cases "h \<noteq> 0 \<and> h \<noteq> nid")
    case False
    with Some assms show ?thesis by (auto simp: apply_link_delay_def)
  next
    case True
    with Some assms obtain c c0 where c: "map_of nt h = Some c"
      and nt': "nt' = AList.update h (max c (c0 + find_link_delay ls nid h)) nt"
      by (auto simp: apply_link_delay_def split: option.splits)
    from c have "h \<in> set (map fst nt)"
      by (metis map_of_eq_None_iff option.distinct(1) set_map)
    then show ?thesis unfolding nt' by (simp add: update_keys)
  qed
qed

lemma release_dependents_multi_keys:
  assumes "release_dependents_multi ts ls nid deps d q nt = Inr (d', q', nt')"
  shows "map fst nt' = map fst nt"
  using assms
proof (induction deps arbitrary: d q nt)
  case Nil
  then show ?case by simp
next
  case (Cons dep deps)
  from Cons.prems show ?case
  proof (cases rule: release_dependents_multi_Cons_cases)
    case (miss v)
    from Cons.IH[of "d(dep \<mapsto> v - 1)" q nt, OF miss(3)] show ?thesis .
  next
    case (hit t nt1)
    from Cons.IH[of "d(dep \<mapsto> 0)" "q @ [t]" nt1, OF hit(4)] apply_link_delay_keys[OF hit(3)]
    show ?thesis by simp
  qed
qed

lemma update_present_keys:
  assumes "map_of nt k = Some v0"
  shows "map fst (AList.update k v nt) = map fst nt"
proof -
  from assms have "k \<in> set (map fst nt)"
    by (metis map_of_eq_None_iff option.distinct(1) set_map)
  then show ?thesis by (simp add: update_keys)
qed

lemma multi_node_loop_choice:
  assumes "multi_node_loop ts ls g q d nt sched = Inr s"
    and "\<forall>t \<in> set ts. node_id_task t = None \<or> node_id_task t = Some 0"
    and "distinct K" and "nt = map (\<lambda>x. (x, clock_of sched x)) K"
    and "length sched \<le> n" and "n < length s"
  shows "\<exists>i < length K.
           node_id (s ! n) = K ! i \<and>
           start_time (s ! n) = clock_of (take n s) (K ! i) \<and>
           (\<forall>j < length K. clock_of (take n s) (K ! i) \<le> clock_of (take n s) (K ! j)) \<and>
           (\<forall>j < i. clock_of (take n s) (K ! i) < clock_of (take n s) (K ! j))"
  using assms
proof (induction ts ls g q d nt sched rule: multi_node_loop.induct)
  case (1 ts ls graph in_degree node_time sched)
  then show ?case by simp
next
  case (2 ts ls graph t ready_queue in_degree node_time sched)
  from "2.prems"(1) obtain nid start d' q' nt' where
    mn: "min_node node_time = Inr nid" and mo: "map_of node_time nid = Some start"
    and rel: "release_dependents_multi ts ls nid (graph (id_task t)) in_degree
                ready_queue (AList.update nid (start + wcet t) node_time) = Inr (d', q', nt')"
    and rec: "multi_node_loop ts ls graph (sort_key edf_key q') d' nt'
           (sched @ [\<lparr>task_id = id_task t, node_id = nid, start_time = start,
                       end_time = start + wcet t, deadline = deadline_task t\<rparr>]) = Inr s"
    by (rule multi_node_loop_Cons_Inr)
  let ?e = "\<lparr>task_id = id_task t, node_id = nid, start_time = start,
             end_time = start + wcet t, deadline = deadline_task t\<rparr>"
  note K = "2.prems"(3) and nt = "2.prems"(4)
  have len: "length node_time = length K" unfolding nt by simp
  have nth: "\<And>j. j < length K \<Longrightarrow> node_time ! j = (K ! j, clock_of sched (K ! j))"
    unfolding nt by simp
  have keys: "map fst node_time = K" unfolding nt by (simp add: comp_def)
  from min_node_first_min[OF mn] obtain i where fm: "first_min node_time i"
    and k: "fst (node_time ! i) = nid" by blast
  from fm have i: "i < length K"
    and le: "\<And>j. j < length K \<Longrightarrow> snd (node_time ! i) \<le> snd (node_time ! j)"
    and lt: "\<And>j. j < i \<Longrightarrow> snd (node_time ! i) < snd (node_time ! j)"
    unfolding first_min_def len by blast+
  from k nth[OF i] have nid: "nid = K ! i" by simp
  have dk: "distinct (map fst node_time)" unfolding keys by (rule K)
  from map_of_nth[OF dk, of i] i len k mo nth[OF i]
  have start: "start = clock_of sched (K ! i)" by simp
  from multi_node_loop_extends[OF rec] obtain rest where s: "s = (sched @ [?e]) @ rest"
    by blast
  show ?case
  proof (cases "n = length sched")
    case True
    have sn: "s ! n = ?e" unfolding s True by (simp add: nth_append)
    have tk: "take n s = sched" unfolding s True by simp
    have a: "node_id (s ! n) = K ! i" unfolding sn using nid by simp
    have b: "start_time (s ! n) = clock_of (take n s) (K ! i)"
      unfolding sn tk using start by simp
    have c: "\<forall>j < length K. clock_of (take n s) (K ! i) \<le> clock_of (take n s) (K ! j)"
    proof (intro allI impI)
      fix j assume j: "j < length K"
      from le[OF j] nth[OF i] nth[OF j]
      show "clock_of (take n s) (K ! i) \<le> clock_of (take n s) (K ! j)"
        unfolding tk by simp
    qed
    have d: "\<forall>j < i. clock_of (take n s) (K ! i) < clock_of (take n s) (K ! j)"
    proof (intro allI impI)
      fix j assume j: "j < i"
      with i have jK: "j < length K" by simp
      from lt[OF j] nth[OF i] nth[OF jK]
      show "clock_of (take n s) (K ! i) < clock_of (take n s) (K ! j)"
        unfolding tk by simp
    qed
    from i a b c d show ?thesis by blast
  next
    case False
    with "2.prems"(5) have n': "length (sched @ [?e]) \<le> n" by simp
    from release_dependents_multi_no_hint[OF rel "2.prems"(2)]
    have nt': "nt' = AList.update nid (start + wcet t) node_time" .
    have kin: "nid \<in> set K" unfolding nid using i by simp
    have "AList.update nid (start + wcet t) (map (\<lambda>x. (x, clock_of sched x)) K)
            = map (\<lambda>x. (x, if x = nid then start + wcet t else clock_of sched x)) K"
      by (rule update_clock_list[OF K kin])
    also have "\<dots> = map (\<lambda>x. (x, clock_of (sched @ [?e]) x)) K"
      by (intro map_cong) (auto simp: clock_of_snoc)
    finally have inv: "nt' = map (\<lambda>x. (x, clock_of (sched @ [?e]) x)) K"
      unfolding nt' nt .
    from "2.IH"[OF mn mo refl refl refl rel refl refl rec "2.prems"(2) K inv n' "2.prems"(6)]
    show ?thesis .
  qed
qed

lemma node_time_init_clock:
  assumes "distinct (map id_node ns)"
  shows "node_time_init ns = map (\<lambda>x. (x, clock_of [] x)) (map id_node ns)"
  using node_time_init_distinct_nodes[OF assms] by (simp add: clock_of_Nil comp_def)

text \<open>
  Claim C5 says that \<^verbatim>\<open>edf_multinode\<close> assigns the task to the node with the minimal
  free-time clock and, among several such nodes, to the one with the smallest node id,
  whatever the order of the nodes list. \<^verbatim>\<open>min(node_time, key=node_time.get)\<close> compares
  clocks only and keeps the first minimal key in the dictionary's insertion order: with
  the nodes listed as 2, 1, both free at 0, the task goes to node 2.
\<close>

theorem tie_between_nodes_goes_to_first_listed:
  "(1::int) < 2
   \<and> fst (edf_multinode
        \<lparr>tasks = [\<lparr>id_task = ''a'', wcet = 20, deadline_task = 10, node_id_task = None\<rparr>],
          messages = []\<rparr>
        \<lparr>nodes = [\<lparr>id_node = 2\<rparr>, \<lparr>id_node = 1\<rparr>], links = []\<rparr>)
     = Inr \<lparr>schedule =
         [\<lparr>task_id = ''a'', node_id = 2, start_time = 0, end_time = 20, deadline = 10\<rparr>],
         name = ''EDF Multi Node''\<rparr>"
  by (simp add: edf_multinode_def in_degree_init_def node_time_init_def edf_key_def)

text \<open>
  Claim C5, as amended. At every scheduling step of \<^verbatim>\<open>edf_multinode\<close> the task just
  removed from the ready queue is assigned to a node whose free-time clock is minimal
  and starts at that clock; when several nodes share the minimal clock, the one that
  comes first in \<^verbatim>\<open>node_time\<close> is chosen, every node before it having a strictly larger
  clock. \<^verbatim>\<open>node_time\<close> starts as the nodes list of the platform data (distinct node
  ids), each node at clock 0, and no step changes the order of its keys. For tasks
  that carry no \<^verbatim>\<open>node_id\<close> this reads on the returned schedule: the node of each entry
  is the first node of the nodes list among those whose clock, the end of the last
  earlier entry on the node, is minimal, and the entry starts at that clock. Node ids
  play no part in the choice.
\<close>

theorem node_is_first_with_minimal_clock:
  "((\<forall>t \<in> set (tasks app). node_id_task t = None \<or> node_id_task t = Some 0) \<and>
    distinct (map id_node (nodes plat)) \<and>
    fst (edf_multinode app plat) = Inr r \<and> n < length (schedule r) \<longrightarrow>
      (\<exists>i < length (nodes plat).
         node_id (schedule r ! n) = id_node (nodes plat ! i) \<and>
         start_time (schedule r ! n)
           = clock_of (take n (schedule r)) (id_node (nodes plat ! i)) \<and>
         (\<forall>j < length (nodes plat).
            clock_of (take n (schedule r)) (id_node (nodes plat ! i))
              \<le> clock_of (take n (schedule r)) (id_node (nodes plat ! j))) \<and>
         (\<forall>j < i.
            clock_of (take n (schedule r)) (id_node (nodes plat ! i))
              < clock_of (take n (schedule r)) (id_node (nodes plat ! j)))))
   \<and> (multi_node_loop ts ls g (t # q) d nt sched = Inr s \<and> distinct (map fst nt) \<longrightarrow>
      (\<exists>i < length nt.
         (\<forall>j < length nt. snd (nt ! i) \<le> snd (nt ! j)) \<and>
         (\<forall>j < i. snd (nt ! i) < snd (nt ! j)) \<and>
         s ! length sched =
           \<lparr>task_id = id_task t, node_id = fst (nt ! i), start_time = snd (nt ! i),
             end_time = snd (nt ! i) + wcet t, deadline = deadline_task t\<rparr> \<and>
         (\<exists>d' q' nt'.
            multi_node_loop ts ls g q' d' nt'
              (sched @ [\<lparr>task_id = id_task t, node_id = fst (nt ! i),
                          start_time = snd (nt ! i), end_time = snd (nt ! i) + wcet t,
                          deadline = deadline_task t\<rparr>]) = Inr s \<and>
            map fst nt' = map fst nt)))
   \<and> (\<forall>r. fst (edf_multinode app plat) = Inr r \<longrightarrow>
      (\<exists>g q d. multi_node_loop (sort_key edf_key (tasks app)) (links plat) g q d
         (node_time_init (nodes plat)) [] = Inr (schedule r)))
   \<and> (distinct (map id_node ns) \<longrightarrow>
      node_time_init ns = map (\<lambda>n. (id_node n, 0)) ns)"
proof -
  have known: "receiver ` set (messages app) \<subseteq> id_task ` set (tasks app)"
    if "fst (edf_multinode app plat) = Inr r" for r
  proof (rule ccontr)
    assume n: "\<not> receiver ` set (messages app) \<subseteq> id_task ` set (tasks app)"
    from that edf_multinode_unknown[OF n, of plat] show False by simp
  qed
  have run: "multi_node_loop (sort_key edf_key (tasks app)) (links plat)
              (graph_of (messages app)) (ready_init edf_key (messages app) (tasks app))
              (in_degree_of (messages app) (in_degree_init (tasks app)))
              (node_time_init (nodes plat)) [] = Inr (schedule r)"
    if r: "fst (edf_multinode app plat) = Inr r" for r
    using r by (auto simp: edf_multinode_known[OF known[OF r]] split: sum.splits)
  have 1: "((\<forall>t \<in> set (tasks app). node_id_task t = None \<or> node_id_task t = Some 0) \<and>
    distinct (map id_node (nodes plat)) \<and>
    fst (edf_multinode app plat) = Inr r \<and> n < length (schedule r) \<longrightarrow>
      (\<exists>i < length (nodes plat).
         node_id (schedule r ! n) = id_node (nodes plat ! i) \<and>
         start_time (schedule r ! n)
           = clock_of (take n (schedule r)) (id_node (nodes plat ! i)) \<and>
         (\<forall>j < length (nodes plat).
            clock_of (take n (schedule r)) (id_node (nodes plat ! i))
              \<le> clock_of (take n (schedule r)) (id_node (nodes plat ! j))) \<and>
         (\<forall>j < i.
            clock_of (take n (schedule r)) (id_node (nodes plat ! i))
              < clock_of (take n (schedule r)) (id_node (nodes plat ! j)))))"
  proof (intro impI, elim conjE)
    assume nh: "\<forall>t \<in> set (tasks app). node_id_task t = None \<or> node_id_task t = Some 0"
      and dn: "distinct (map id_node (nodes plat))"
      and r: "fst (edf_multinode app plat) = Inr r" and n: "n < length (schedule r)"
    from nh have nh': "\<forall>t \<in> set (sort_key edf_key (tasks app)).
        node_id_task t = None \<or> node_id_task t = Some 0" by simp
    have n0: "length ([] :: entry list) \<le> n" by simp
    from multi_node_loop_choice[OF run[OF r] nh' dn node_time_init_clock[OF dn] n0 n]
    obtain i where i: "i < length (map id_node (nodes plat))"
      and a: "node_id (schedule r ! n) = map id_node (nodes plat) ! i"
      and b: "start_time (schedule r ! n)
                = clock_of (take n (schedule r)) (map id_node (nodes plat) ! i)"
      and c: "\<forall>j < length (map id_node (nodes plat)).
                clock_of (take n (schedule r)) (map id_node (nodes plat) ! i)
                  \<le> clock_of (take n (schedule r)) (map id_node (nodes plat) ! j)"
      and d: "\<forall>j < i. clock_of (take n (schedule r)) (map id_node (nodes plat) ! i)
                  < clock_of (take n (schedule r)) (map id_node (nodes plat) ! j)"
      by blast
    from i have i': "i < length (nodes plat)" by simp
    have a': "node_id (schedule r ! n) = id_node (nodes plat ! i)" using a i' by simp
    have b': "start_time (schedule r ! n)
           = clock_of (take n (schedule r)) (id_node (nodes plat ! i))" using b i' by simp
    have c': "\<forall>j < length (nodes plat).
            clock_of (take n (schedule r)) (id_node (nodes plat ! i))
              \<le> clock_of (take n (schedule r)) (id_node (nodes plat ! j))"
    proof (intro allI impI)
      fix j assume j: "j < length (nodes plat)"
      with c have "clock_of (take n (schedule r)) (map id_node (nodes plat) ! i)
                  \<le> clock_of (take n (schedule r)) (map id_node (nodes plat) ! j)" by simp
      with i' j show "clock_of (take n (schedule r)) (id_node (nodes plat ! i))
              \<le> clock_of (take n (schedule r)) (id_node (nodes plat ! j))" by simp
    qed
    have d': "\<forall>j < i.
            clock_of (take n (schedule r)) (id_node (nodes plat ! i))
              < clock_of (take n (schedule r)) (id_node (nodes plat ! j))"
    proof (intro allI impI)
      fix j assume j: "j < i"
      with d have "clock_of (take n (schedule r)) (map id_node (nodes plat) ! i)
                  < clock_of (take n (schedule r)) (map id_node (nodes plat) ! j)" by simp
      with i' j show "clock_of (take n (schedule r)) (id_node (nodes plat ! i))
              < clock_of (take n (schedule r)) (id_node (nodes plat ! j))" by simp
    qed
    from i' a' b' c' d' show "\<exists>i < length (nodes plat).
         node_id (schedule r ! n) = id_node (nodes plat ! i) \<and>
         start_time (schedule r ! n)
           = clock_of (take n (schedule r)) (id_node (nodes plat ! i)) \<and>
         (\<forall>j < length (nodes plat).
            clock_of (take n (schedule r)) (id_node (nodes plat ! i))
              \<le> clock_of (take n (schedule r)) (id_node (nodes plat ! j))) \<and>
         (\<forall>j < i.
            clock_of (take n (schedule r)) (id_node (nodes plat ! i))
              < clock_of (take n (schedule r)) (id_node (nodes plat ! j)))"
      by blast
  qed
  have 2: "(multi_node_loop ts ls g (t # q) d nt sched = Inr s \<and> distinct (map fst nt) \<longrightarrow>
      (\<exists>i < length nt.
         (\<forall>j < length nt. snd (nt ! i) \<le> snd (nt ! j)) \<and>
         (\<forall>j < i. snd (nt ! i) < snd (nt ! j)) \<and>
         s ! length sched =
           \<lparr>task_id = id_task t, node_id = fst (nt ! i), start_time = snd (nt ! i),
             end_time = snd (nt ! i) + wcet t, deadline = deadline_task t\<rparr> \<and>
         (\<exists>d' q' nt'.
            multi_node_loop ts ls g q' d' nt'
              (sched @ [\<lparr>task_id = id_task t, node_id = fst (nt ! i),
                          start_time = snd (nt ! i), end_time = snd (nt ! i) + wcet t,
                          deadline = deadline_task t\<rparr>]) = Inr s \<and>
            map fst nt' = map fst nt)))"
  proof (intro impI, elim conjE)
    assume lp: "multi_node_loop ts ls g (t # q) d nt sched = Inr s"
      and dk: "distinct (map fst nt)"
    from lp obtain nid start d' q' nt' where
      mn: "min_node nt = Inr nid" and mo: "map_of nt nid = Some start"
      and rel: "release_dependents_multi ts ls nid (g (id_task t)) d q
                  (AList.update nid (start + wcet t) nt) = Inr (d', q', nt')"
      and rec: "multi_node_loop ts ls g (sort_key edf_key q') d' nt'
             (sched @ [\<lparr>task_id = id_task t, node_id = nid, start_time = start,
                         end_time = start + wcet t, deadline = deadline_task t\<rparr>]) = Inr s"
      by (rule multi_node_loop_Cons_Inr)
    from min_node_first_min[OF mn] obtain i where fm: "first_min nt i"
      and k: "fst (nt ! i) = nid" by blast
    from fm have i: "i < length nt"
      and le: "\<forall>j < length nt. snd (nt ! i) \<le> snd (nt ! j)"
      and lt: "\<forall>j < i. snd (nt ! i) < snd (nt ! j)"
      unfolding first_min_def by blast+
    from map_of_nth[OF dk i] k mo have st: "start = snd (nt ! i)" by simp
    from multi_node_loop_extends[OF rec] obtain rest where
      "s = (sched @ [\<lparr>task_id = id_task t, node_id = nid, start_time = start,
                         end_time = start + wcet t, deadline = deadline_task t\<rparr>]) @ rest"
      by blast
    then have "s ! length sched = \<lparr>task_id = id_task t, node_id = nid, start_time = start,
                         end_time = start + wcet t, deadline = deadline_task t\<rparr>"
      by (simp add: nth_append)
    then have e: "s ! length sched =
           \<lparr>task_id = id_task t, node_id = fst (nt ! i), start_time = snd (nt ! i),
             end_time = snd (nt ! i) + wcet t, deadline = deadline_task t\<rparr>"
      by (simp only: k st)
    have "map fst nt' = map fst (AList.update nid (start + wcet t) nt)"
      by (rule release_dependents_multi_keys[OF rel])
    also have "\<dots> = map fst nt" by (rule update_present_keys[OF mo])
    finally have keys: "map fst nt' = map fst nt" .
    from rec have rec': "multi_node_loop ts ls g (sort_key edf_key q') d' nt'
              (sched @ [\<lparr>task_id = id_task t, node_id = fst (nt ! i),
                          start_time = snd (nt ! i), end_time = snd (nt ! i) + wcet t,
                          deadline = deadline_task t\<rparr>]) = Inr s"
      by (simp only: k st)
    from rec' keys have c: "\<exists>d' q' nt'.
            multi_node_loop ts ls g q' d' nt'
              (sched @ [\<lparr>task_id = id_task t, node_id = fst (nt ! i),
                          start_time = snd (nt ! i), end_time = snd (nt ! i) + wcet t,
                          deadline = deadline_task t\<rparr>]) = Inr s \<and>
            map fst nt' = map fst nt"
      by blast
    from i le lt e c show "\<exists>i < length nt.
         (\<forall>j < length nt. snd (nt ! i) \<le> snd (nt ! j)) \<and>
         (\<forall>j < i. snd (nt ! i) < snd (nt ! j)) \<and>
         s ! length sched =
           \<lparr>task_id = id_task t, node_id = fst (nt ! i), start_time = snd (nt ! i),
             end_time = snd (nt ! i) + wcet t, deadline = deadline_task t\<rparr> \<and>
         (\<exists>d' q' nt'.
            multi_node_loop ts ls g q' d' nt'
              (sched @ [\<lparr>task_id = id_task t, node_id = fst (nt ! i),
                          start_time = snd (nt ! i), end_time = snd (nt ! i) + wcet t,
                          deadline = deadline_task t\<rparr>]) = Inr s \<and>
            map fst nt' = map fst nt)"
      by blast
  qed
  have 3: "(\<forall>r. fst (edf_multinode app plat) = Inr r \<longrightarrow>
      (\<exists>g q d. multi_node_loop (sort_key edf_key (tasks app)) (links plat) g q d
         (node_time_init (nodes plat)) [] = Inr (schedule r)))"
    using run by blast
  have 4: "(distinct (map id_node ns) \<longrightarrow>
      node_time_init ns = map (\<lambda>n. (id_node n, 0)) ns)"
    using node_time_init_distinct_nodes by blast
  from 1 2 3 4 show ?thesis by (intro conjI)
qed

theorem node_is_first_with_minimal_clock_witness:
  "fst (edf_multinode
      \<lparr>tasks =
       [\<lparr>id_task = ''a'', wcet = 10, deadline_task = 1, node_id_task = None\<rparr>,
        \<lparr>id_task = ''b'', wcet = 20, deadline_task = 2, node_id_task = None\<rparr>,
        \<lparr>id_task = ''c'', wcet = 10, deadline_task = 3, node_id_task = None\<rparr>,
        \<lparr>id_task = ''d'', wcet = 10, deadline_task = 4, node_id_task = None\<rparr>],
      messages = []\<rparr>
      \<lparr>nodes = [\<lparr>id_node = 2\<rparr>, \<lparr>id_node = 1\<rparr>], links = []\<rparr>)
     = Inr \<lparr>schedule =
        [\<lparr>task_id = ''a'', node_id = 2, start_time = 0, end_time = 10, deadline = 1\<rparr>,
         \<lparr>task_id = ''b'', node_id = 1, start_time = 0, end_time = 20, deadline = 2\<rparr>,
         \<lparr>task_id = ''c'', node_id = 2, start_time = 10, end_time = 20, deadline = 3\<rparr>,
         \<lparr>task_id = ''d'', node_id = 2, start_time = 20, end_time = 30, deadline = 4\<rparr>],
        name = ''EDF Multi Node''\<rparr>
   \<and> (\<exists>i < length [\<lparr>id_node = 2\<rparr>, \<lparr>id_node = 1\<rparr>].
         (2 :: int) = id_node ([\<lparr>id_node = 2\<rparr>, \<lparr>id_node = 1\<rparr>] ! i) \<and>
         (20 :: int) = clock_of
            [\<lparr>task_id = ''a'', node_id = 2, start_time = 0, end_time = 10, deadline = 1\<rparr>,
         \<lparr>task_id = ''b'', node_id = 1, start_time = 0, end_time = 20, deadline = 2\<rparr>,
         \<lparr>task_id = ''c'', node_id = 2, start_time = 10, end_time = 20, deadline = 3\<rparr>]
            (id_node ([\<lparr>id_node = 2\<rparr>, \<lparr>id_node = 1\<rparr>] ! i)) \<and>
         (\<forall>j < length [\<lparr>id_node = 2\<rparr>, \<lparr>id_node = 1\<rparr>].
            clock_of
              [\<lparr>task_id = ''a'', node_id = 2, start_time = 0, end_time = 10, deadline = 1\<rparr>,
         \<lparr>task_id = ''b'', node_id = 1, start_time = 0, end_time = 20, deadline = 2\<rparr>,
         \<lparr>task_id = ''c'', node_id = 2, start_time = 10, end_time = 20, deadline = 3\<rparr>]
              (id_node ([\<lparr>id_node = 2\<rparr>, \<lparr>id_node = 1\<rparr>] ! i))
            \<le> clock_of
              [\<lparr>task_id = ''a'', node_id = 2, start_time = 0, end_time = 10, deadline = 1\<rparr>,
         \<lparr>task_id = ''b'', node_id = 1, start_time = 0, end_time = 20, deadline = 2\<rparr>,
         \<lparr>task_id = ''c'', node_id = 2, start_time = 10, end_time = 20, deadline = 3\<rparr>]
              (id_node ([\<lparr>id_node = 2\<rparr>, \<lparr>id_node = 1\<rparr>] ! j))) \<and>
         (\<forall>j < i.
            clock_of
              [\<lparr>task_id = ''a'', node_id = 2, start_time = 0, end_time = 10, deadline = 1\<rparr>,
         \<lparr>task_id = ''b'', node_id = 1, start_time = 0, end_time = 20, deadline = 2\<rparr>,
         \<lparr>task_id = ''c'', node_id = 2, start_time = 10, end_time = 20, deadline = 3\<rparr>]
              (id_node ([\<lparr>id_node = 2\<rparr>, \<lparr>id_node = 1\<rparr>] ! i))
            < clock_of
              [\<lparr>task_id = ''a'', node_id = 2, start_time = 0, end_time = 10, deadline = 1\<rparr>,
         \<lparr>task_id = ''b'', node_id = 1, start_time = 0, end_time = 20, deadline = 2\<rparr>,
         \<lparr>task_id = ''c'', node_id = 2, start_time = 10, end_time = 20, deadline = 3\<rparr>]
              (id_node ([\<lparr>id_node = 2\<rparr>, \<lparr>id_node = 1\<rparr>] ! j))))"
proof -
  let ?app = "\<lparr>tasks =
       [\<lparr>id_task = ''a'', wcet = 10, deadline_task = 1, node_id_task = None\<rparr>,
        \<lparr>id_task = ''b'', wcet = 20, deadline_task = 2, node_id_task = None\<rparr>,
        \<lparr>id_task = ''c'', wcet = 10, deadline_task = 3, node_id_task = None\<rparr>,
        \<lparr>id_task = ''d'', wcet = 10, deadline_task = 4, node_id_task = None\<rparr>],
      messages = []\<rparr>"
  let ?plat = "\<lparr>nodes = [\<lparr>id_node = 2\<rparr>, \<lparr>id_node = 1\<rparr>], links = []\<rparr>"
  let ?r = "\<lparr>schedule =
        [\<lparr>task_id = ''a'', node_id = 2, start_time = 0, end_time = 10, deadline = 1\<rparr>,
         \<lparr>task_id = ''b'', node_id = 1, start_time = 0, end_time = 20, deadline = 2\<rparr>,
         \<lparr>task_id = ''c'', node_id = 2, start_time = 10, end_time = 20, deadline = 3\<rparr>,
         \<lparr>task_id = ''d'', node_id = 2, start_time = 20, end_time = 30, deadline = 4\<rparr>],
        name = ''EDF Multi Node''\<rparr>"
  have h1: "\<forall>t \<in> set (tasks ?app). node_id_task t = None \<or> node_id_task t = Some 0"
    by simp
  have h2: "distinct (map id_node (nodes ?plat))" by simp
  have run: "fst (edf_multinode ?app ?plat) = Inr ?r"
    by (simp add: edf_multinode_def in_degree_init_def node_time_init_def edf_key_def)
  have h3: "3 < length (schedule ?r)" by simp
  from node_is_first_with_minimal_clock[where app = ?app and plat = ?plat and r = ?r
      and n = 3] h1 h2 run h3
  have "(\<exists>i < length (nodes ?plat).
         node_id ((schedule ?r) ! 3) = id_node ((nodes ?plat) ! i) \<and>
         start_time ((schedule ?r) ! 3) = clock_of (take 3 (schedule ?r)) (id_node ((nodes ?plat) ! i)) \<and>
         (\<forall>j < length (nodes ?plat).
            clock_of (take 3 (schedule ?r)) (id_node ((nodes ?plat) ! i))
              \<le> clock_of (take 3 (schedule ?r)) (id_node ((nodes ?plat) ! j))) \<and>
         (\<forall>j < i.
            clock_of (take 3 (schedule ?r)) (id_node ((nodes ?plat) ! i))
              < clock_of (take 3 (schedule ?r)) (id_node ((nodes ?plat) ! j))))"
    by blast
  then have "(\<exists>i < length [\<lparr>id_node = 2\<rparr>, \<lparr>id_node = 1\<rparr>].
         (2 :: int) = id_node ([\<lparr>id_node = 2\<rparr>, \<lparr>id_node = 1\<rparr>] ! i) \<and>
         (20 :: int) = clock_of
            [\<lparr>task_id = ''a'', node_id = 2, start_time = 0, end_time = 10, deadline = 1\<rparr>,
         \<lparr>task_id = ''b'', node_id = 1, start_time = 0, end_time = 20, deadline = 2\<rparr>,
         \<lparr>task_id = ''c'', node_id = 2, start_time = 10, end_time = 20, deadline = 3\<rparr>]
            (id_node ([\<lparr>id_node = 2\<rparr>, \<lparr>id_node = 1\<rparr>] ! i)) \<and>
         (\<forall>j < length [\<lparr>id_node = 2\<rparr>, \<lparr>id_node = 1\<rparr>].
            clock_of
              [\<lparr>task_id = ''a'', node_id = 2, start_time = 0, end_time = 10, deadline = 1\<rparr>,
         \<lparr>task_id = ''b'', node_id = 1, start_time = 0, end_time = 20, deadline = 2\<rparr>,
         \<lparr>task_id = ''c'', node_id = 2, start_time = 10, end_time = 20, deadline = 3\<rparr>]
              (id_node ([\<lparr>id_node = 2\<rparr>, \<lparr>id_node = 1\<rparr>] ! i))
            \<le> clock_of
              [\<lparr>task_id = ''a'', node_id = 2, start_time = 0, end_time = 10, deadline = 1\<rparr>,
         \<lparr>task_id = ''b'', node_id = 1, start_time = 0, end_time = 20, deadline = 2\<rparr>,
         \<lparr>task_id = ''c'', node_id = 2, start_time = 10, end_time = 20, deadline = 3\<rparr>]
              (id_node ([\<lparr>id_node = 2\<rparr>, \<lparr>id_node = 1\<rparr>] ! j))) \<and>
         (\<forall>j < i.
            clock_of
              [\<lparr>task_id = ''a'', node_id = 2, start_time = 0, end_time = 10, deadline = 1\<rparr>,
         \<lparr>task_id = ''b'', node_id = 1, start_time = 0, end_time = 20, deadline = 2\<rparr>,
         \<lparr>task_id = ''c'', node_id = 2, start_time = 10, end_time = 20, deadline = 3\<rparr>]
              (id_node ([\<lparr>id_node = 2\<rparr>, \<lparr>id_node = 1\<rparr>] ! i))
            < clock_of
              [\<lparr>task_id = ''a'', node_id = 2, start_time = 0, end_time = 10, deadline = 1\<rparr>,
         \<lparr>task_id = ''b'', node_id = 1, start_time = 0, end_time = 20, deadline = 2\<rparr>,
         \<lparr>task_id = ''c'', node_id = 2, start_time = 10, end_time = 20, deadline = 3\<rparr>]
              (id_node ([\<lparr>id_node = 2\<rparr>, \<lparr>id_node = 1\<rparr>] ! j))))"
    by simp
  with run show ?thesis by (intro conjI)
qed

end
